theory Spec2Isabelle
  imports Main "HOL-Library.Sublist"
begin

section \<open>Strings\<close>

text \<open>
  The program is TypeScript; its strings are modelled as \<^typ>\<open>string\<close> (lists of
  characters), one \<^typ>\<open>char\<close> per code unit, which covers the code units below 256.
  \<open>length\<close> is the \<open>.length\<close> of the source.
\<close>

definition isSpace :: "char \<Rightarrow> bool" where
  \<comment> \<open>the characters that \<open>trim\<close>, \<open>trimEnd\<close> and the regular expression class \<open>\s\<close>
      treat as white space: TAB, LF, VT, FF, CR, SPACE and NBSP\<close>
  "isSpace c \<longleftrightarrow> c \<in> set [CHR 0x09, CHR 0x0A, CHR 0x0B, CHR 0x0C, CHR 0x0D, CHR 0x20, CHR 0xA0]"

definition trimStart :: "string \<Rightarrow> string" where
  "trimStart s = dropWhile isSpace s"

definition trimEnd :: "string \<Rightarrow> string" where
  "trimEnd s = rev (dropWhile isSpace (rev s))"

definition trim :: "string \<Rightarrow> string" where
  "trim s = trimEnd (trimStart s)"

definition endsWith :: "string \<Rightarrow> string \<Rightarrow> bool" where
  "endsWith s sfx \<longleftrightarrow> suffix sfx s"

definition slice :: "string \<Rightarrow> nat \<Rightarrow> nat \<Rightarrow> string" where
  \<comment> \<open>\<open>s.slice(a, b)\<close> for non-negative indices: empty when \<open>b \<le> a\<close>, clipped at the end\<close>
  "slice s a b = take (b - a) (drop a s)"

definition slice_from :: "string \<Rightarrow> nat \<Rightarrow> string" where
  \<comment> \<open>\<open>s.slice(a)\<close>\<close>
  "slice_from s a = drop a s"

definition lowerCaseLetters :: string where
  \<comment> \<open>\<open>a\<close> to \<open>z\<close>, and U+00E0 to U+00FE without the division sign U+00F7\<close>
  "lowerCaseLetters = ''abcdefghijklmnopqrstuvwxyz'' @
       [CHR 0xE0, CHR 0xE1, CHR 0xE2, CHR 0xE3, CHR 0xE4, CHR 0xE5, CHR 0xE6, CHR 0xE7,
        CHR 0xE8, CHR 0xE9, CHR 0xEA, CHR 0xEB, CHR 0xEC, CHR 0xED, CHR 0xEE, CHR 0xEF,
        CHR 0xF0, CHR 0xF1, CHR 0xF2, CHR 0xF3, CHR 0xF4, CHR 0xF5, CHR 0xF6, CHR 0xF8,
        CHR 0xF9, CHR 0xFA, CHR 0xFB, CHR 0xFC, CHR 0xFD, CHR 0xFE]"

definition upperCaseLetters :: string where
  \<comment> \<open>\<open>A\<close> to \<open>Z\<close>, and U+00C0 to U+00DE without the multiplication sign U+00D7\<close>
  "upperCaseLetters = ''ABCDEFGHIJKLMNOPQRSTUVWXYZ'' @
       [CHR 0xC0, CHR 0xC1, CHR 0xC2, CHR 0xC3, CHR 0xC4, CHR 0xC5, CHR 0xC6, CHR 0xC7,
        CHR 0xC8, CHR 0xC9, CHR 0xCA, CHR 0xCB, CHR 0xCC, CHR 0xCD, CHR 0xCE, CHR 0xCF,
        CHR 0xD0, CHR 0xD1, CHR 0xD2, CHR 0xD3, CHR 0xD4, CHR 0xD5, CHR 0xD6, CHR 0xD8,
        CHR 0xD9, CHR 0xDA, CHR 0xDB, CHR 0xDC, CHR 0xDD, CHR 0xDE]"

definition toUpperCase_char :: "char \<Rightarrow> string" where
  \<comment> \<open>\<open>toUpperCase\<close> on a string of one code unit below 256: a lower-case letter
      becomes its capital and the sharp s U+00DF becomes \<open>SS\<close>. The micro sign U+00B5 and
      U+00FF have capitals above 255, outside the modelled characters, and are kept, as is
      every other character.\<close>
  "toUpperCase_char c =
     (if c = CHR 0xDF then ''SS''
      else
        (case map_of (zip lowerCaseLetters upperCaseLetters) c of
           Some u \<Rightarrow> [u]
         | None \<Rightarrow> [c]))"

fun capitalize :: "string \<Rightarrow> string" where
  \<comment> \<open>\<open>s.charAt(0).toUpperCase() + s.slice(1)\<close>\<close>
  "capitalize [] = []"
| "capitalize (c # cs) = toUpperCase_char c @ cs"

section \<open>Stream ingest: \<open>useSpeechRecognition\<close>\<close>

definition MAX_READABLE_LINE_LENGTH :: nat where
  "MAX_READABLE_LINE_LENGTH = 160"

definition SOFT_BREAK_THRESHOLD :: nat where
  "SOFT_BREAK_THRESHOLD = 80"

definition isTerminator :: "char \<Rightarrow> bool" where
  \<comment> \<open>the character class \<open>[.!?]\<close>\<close>
  "isTerminator c \<longleftrightarrow> c = CHR ''.'' \<or> c = CHR ''!'' \<or> c = CHR ''?''"

text \<open>
  \<open>chunk.match(/([^.!?]+[.!?]\s*|[^.!?]+$)/g)\<close>: all matches, left to right. At a
  terminator no alternative matches and the search moves one character on. Elsewhere
  the greedy run of non-terminators either reaches the end of the string (second
  alternative) or stops at a terminator, which is taken together with the white space
  that follows it (first alternative).
\<close>

function sentence_matches :: "string \<Rightarrow> string list" where
  "sentence_matches [] = []"
| "sentence_matches (c # cs) =
     (if isTerminator c then sentence_matches cs
      else
        (case dropWhile (\<lambda>x. \<not> isTerminator x) cs of
           [] \<Rightarrow> [c # cs]
         | p # rest \<Rightarrow>
             (c # takeWhile (\<lambda>x. \<not> isTerminator x) cs @ [p] @ takeWhile isSpace rest)
               # sentence_matches (dropWhile isSpace rest)))"
  by pat_completeness auto

termination
proof (relation "measure length")
  fix c :: char and cs p rest
  assume "dropWhile (\<lambda>x. \<not> isTerminator x) cs = p # rest"
  then have "length (p # rest) \<le> length cs"
    by (metis length_dropWhile_le)
  moreover have "length (dropWhile isSpace rest) \<le> length rest"
    by (rule length_dropWhile_le)
  ultimately show "(dropWhile isSpace rest, c # cs) \<in> measure length"
    by simp
qed simp_all

definition lastLine :: "string \<Rightarrow> string" where
  \<comment> \<open>\<open>lines[lines.length - 1] || ''\<close> for \<open>lines = newText.split('\n')\<close>: the text after
      the last line feed\<close>
  "lastLine t = rev (takeWhile (\<lambda>c. c \<noteq> CHR 0x0A) (rev t))"

definition endsInPunctuation :: "string \<Rightarrow> bool" where
  \<comment> \<open>\<open>/[.!?]$/.test(lastLine)\<close>\<close>
  "endsInPunctuation l \<longleftrightarrow> l \<noteq> [] \<and> isTerminator (last l)"

definition shouldBreak :: "string \<Rightarrow> bool" where
  "shouldBreak l \<longleftrightarrow>
     (endsInPunctuation l \<and> length l > SOFT_BREAK_THRESHOLD) \<or> length l > MAX_READABLE_LINE_LENGTH"

definition separator :: "string \<Rightarrow> string" where
  \<comment> \<open>the separator chosen in the body of \<open>matches.forEach\<close> for the current \<open>newText\<close>\<close>
  "separator newText =
     (if newText \<noteq> [] then
        (if shouldBreak (lastLine newText) then [CHR 0x0A]
         else (if endsInPunctuation (lastLine newText) then '' '' else '' ''))
      else [])"

definition add_sentence :: "string \<Rightarrow> string \<Rightarrow> string" where
  \<comment> \<open>one round of \<open>matches.forEach\<close>: from \<open>newText\<close> and the match \<open>s\<close> to the next \<open>newText\<close>\<close>
  "add_sentence newText s =
     (let sentence = capitalize (trim s)
      in if sentence = [] then newText else newText @ separator newText @ sentence)"

definition commit_final :: "string \<Rightarrow> string \<Rightarrow> string" where
  \<comment> \<open>the updater passed to \<open>setText\<close> in \<open>recognition.onresult\<close>, for a non-empty
      \<open>finalChunk\<close>\<close>
  "commit_final finalChunk prev =
     (let chunk = trim finalChunk
      in if chunk = [] then prev
         else
           (let matches = (case sentence_matches chunk of [] \<Rightarrow> [chunk] | m # ms \<Rightarrow> m # ms)
            in foldl add_sentence (trimEnd prev) matches))"

definition silence_commit :: "string \<Rightarrow> string" where
  \<comment> \<open>the updater passed to \<open>setText\<close> when the 1200 ms silence timer fires;
      \<open>/[.!?\n]$/.test(trimmed)\<close> looks at the last character\<close>
  "silence_commit prev =
     (let trimmed = trimEnd prev
      in if length trimmed > 0 \<and> \<not> (isTerminator (last trimmed) \<or> last trimmed = CHR 0x0A)
         then trimmed @ [CHR ''.'', CHR 0x0A, CHR 0x0A]
         else if length trimmed > 0 \<and> \<not> endsWith trimmed [CHR 0x0A, CHR 0x0A]
         then trimmed @ [CHR 0x0A, CHR 0x0A]
         else prev)"

subsection \<open>Recognition events and errors\<close>

datatype TranscriptionStatus = IDLE | RECORDING | PAUSED | STOPPED

datatype error_entry =
  NoSpeech | AudioCapture | NotAllowed | Network | NotSupported | Aborted | UnknownError

definition ERROR_MAP :: "string \<Rightarrow> error_entry option" where
  \<comment> \<open>the table \<open>ERROR_MAP\<close>; an entry stands for its pair of message and recovery hint\<close>
  "ERROR_MAP = map_of
     [(''no-speech'', NoSpeech), (''audio-capture'', AudioCapture), (''not-allowed'', NotAllowed),
      (''network'', Network), (''not-supported'', NotSupported), (''aborted'', Aborted)]"

record hook_state =
  status :: TranscriptionStatus
  sourceText :: string  \<comment> \<open>the state \<open>text\<close> of the hook\<close>
  interimText :: string
  error :: "error_entry option"
  restartCount :: nat

record recognition_result =
  isFinal :: bool
  transcript :: string

record SpeechRecognitionEvent =
  resultIndex :: nat
  results :: "recognition_result list"

definition finalChunk_of :: "SpeechRecognitionEvent \<Rightarrow> string" where
  "finalChunk_of ev = concat (map transcript (filter isFinal (drop (resultIndex ev) (results ev))))"

definition interimChunk_of :: "SpeechRecognitionEvent \<Rightarrow> string" where
  "interimChunk_of ev =
     concat (map transcript (filter (\<lambda>r. \<not> isFinal r) (drop (resultIndex ev) (results ev))))"

definition onresult :: "SpeechRecognitionEvent \<Rightarrow> 'a hook_state_scheme \<Rightarrow> 'a hook_state_scheme" where
  "onresult ev s =
     (let s1 = s\<lparr>restartCount := 0\<rparr>
      in if finalChunk_of ev \<noteq> []
         then s1\<lparr>sourceText := commit_final (finalChunk_of ev) (sourceText s1), interimText := []\<rparr>
         else s1\<lparr>interimText := interimChunk_of ev\<rparr>)"

definition onerror :: "string \<Rightarrow> 'a hook_state_scheme \<Rightarrow> 'a hook_state_scheme \<times> nat option" where
  \<comment> \<open>the second component is the delay of the scheduled \<open>recognition.start()\<close>, if any\<close>
  "onerror code s =
     (let errInfo = (case ERROR_MAP code of Some e \<Rightarrow> e | None \<Rightarrow> UnknownError);
          s1 = s\<lparr>error := Some errInfo\<rparr>
      in if status s1 = RECORDING \<and> restartCount s1 < 3
         then (s1\<lparr>restartCount := restartCount s1 + 1\<rparr>, Some 500)
         else (s1, None))"

definition onend :: "'a hook_state_scheme \<Rightarrow> bool" where
  \<comment> \<open>whether \<open>recognition.start()\<close> is called again\<close>
  "onend s \<longleftrightarrow> status s = RECORDING"

definition silence_timer :: "'a hook_state_scheme \<Rightarrow> 'a hook_state_scheme" where
  \<comment> \<open>the silence timer is armed only while recording with no interim text\<close>
  "silence_timer s =
     (if status s \<noteq> RECORDING \<or> interimText s \<noteq> [] then s
      else s\<lparr>sourceText := silence_commit (sourceText s)\<rparr>)"

definition startRecording :: "'a hook_state_scheme \<Rightarrow> 'a hook_state_scheme" where
  "startRecording s = s\<lparr>error := None, restartCount := 0, status := RECORDING\<rparr>"

definition pauseRecording :: "'a hook_state_scheme \<Rightarrow> 'a hook_state_scheme" where
  "pauseRecording s = s\<lparr>status := PAUSED\<rparr>"

definition stopRecording :: "'a hook_state_scheme \<Rightarrow> 'a hook_state_scheme" where
  "stopRecording s = s\<lparr>status := STOPPED, interimText := []\<rparr>"

definition clearTranscript :: "'a hook_state_scheme \<Rightarrow> 'a hook_state_scheme" where
  "clearTranscript s = s\<lparr>sourceText := [], interimText := [], error := None\<rparr>"

fun run_errors :: "string list \<Rightarrow> 'a hook_state_scheme \<Rightarrow> 'a hook_state_scheme \<times> nat" where
  \<comment> \<open>consecutive error events, with no result event in between; the second component
      counts the restarts they schedule\<close>
  "run_errors [] s = (s, 0)"
| "run_errors (code # codes) s =
     (let (s1, r) = onerror code s; (s2, n) = run_errors codes s1
      in (s2, (if r = None then 0 else 1) + n))"

section \<open>The retry wrapper\<close>

record js_error =
  err_status :: "int option"
  err_message :: "string option"

definition isQuota :: "js_error \<Rightarrow> bool" where
  \<comment> \<open>\<open>error?.status === 429 || error?.message?.includes('429')\<close>\<close>
  "isQuota e \<longleftrightarrow>
     err_status e = Some 429 \<or> (case err_message e of Some m \<Rightarrow> sublist ''429'' m | None \<Rightarrow> False)"

text \<open>
  \<open>fn\<close> is called once per attempt; \<open>fn k\<close> is the outcome of its \<open>k\<close>-th call. The
  result is paired with the delays that were waited, in order.
\<close>

fun retryWithBackoff_from ::
  "(nat \<Rightarrow> js_error + 'a) \<Rightarrow> nat \<Rightarrow> nat \<Rightarrow> nat \<Rightarrow> (js_error + 'a) \<times> nat list" where
  "retryWithBackoff_from fn k retries delay =
     (case fn k of
        Inr v \<Rightarrow> (Inr v, [])
      | Inl e \<Rightarrow>
          if isQuota e \<and> retries > 0
          then (let (r, ds) = retryWithBackoff_from fn (k + 1) (retries - 1) (delay * 2)
                in (r, delay # ds))
          else (Inl e, []))"

definition retryWithBackoff :: "(nat \<Rightarrow> js_error + 'a) \<Rightarrow> (js_error + 'a) \<times> nat list" where
  \<comment> \<open>the defaults \<open>retries = 3\<close>, \<open>delay = 1000\<close>, as the refiner calls it\<close>
  "retryWithBackoff fn = retryWithBackoff_from fn 0 3 1000"

section \<open>The pipeline state of \<open>App\<close>\<close>

record app_state = hook_state +
  translatedText :: string
  refinedRef :: nat
  processedRef :: nat
  refiningInProgressRef :: bool
  translatingRef :: bool
  lastRequestTimeRef :: int
  minIntervalRef :: int
  lastTextLengthRef :: nat
  velocityRef :: int
  aiError :: "string option"
  isRefining :: bool
  isTranslating :: bool
  API_KEY :: bool  \<comment> \<open>whether \<open>process.env.API_KEY\<close> is set\<close>

definition initial_state :: app_state where
  "initial_state =
     \<lparr>status = IDLE, sourceText = [], interimText = [], error = None, restartCount = 0,
      translatedText = [], refinedRef = 0, processedRef = 0, refiningInProgressRef = False,
      translatingRef = False, lastRequestTimeRef = 0, minIntervalRef = 500,
      lastTextLengthRef = 0, velocityRef = 0,
      aiError = None, isRefining = False, isTranslating = False, API_KEY = True\<rparr>"

definition onClear :: "app_state \<Rightarrow> app_state" where
  \<comment> \<open>\<open>clearTranscript(); refinedRef.current = 0; processedRef.current = 0;\<close>\<close>
  "onClear s = (clearTranscript s)\<lparr>refinedRef := 0, processedRef := 0\<rparr>"

subsection \<open>Refinement\<close>

text \<open>
  A remote call answers with an error (the promise is rejected) or with a response
  whose \<open>text\<close> is a string or undefined.
\<close>

type_synonym remote_outcome = "js_error + string option"

definition refine_begin :: "app_state \<Rightarrow> (string \<times> app_state) option" where
  \<comment> \<open>\<open>refineEnglishTranscript\<close> up to the remote call: the chunk that is sent, if any\<close>
  "refine_begin s =
     (if \<not> API_KEY s \<or> refiningInProgressRef s then None
      else
        (let raw = sourceText s;
             unrefinedChunk = trim (slice_from raw (refinedRef s));
             minThreshold = (if velocityRef s > 30 then 120 else 40)
         in if length unrefinedChunk < minThreshold then None
            else Some (unrefinedChunk, s\<lparr>refiningInProgressRef := True, isRefining := True\<rparr>)))"

definition splice :: "string \<Rightarrow> app_state \<Rightarrow> app_state" where
  \<comment> \<open>the updater passed to \<open>setText\<close> on success, run on the buffer \<open>prev\<close> as it is then\<close>
  "splice refined s =
     (let prev = sourceText s;
          head = slice prev 0 (refinedRef s);
          sep = (if endsWith head [CHR 0x0A] \<or> head = [] then [] else '' '');
          newFullText = head @ sep @ refined
      in s\<lparr>sourceText := newFullText, refinedRef := length newFullText\<rparr>)"

definition refine_end :: "remote_outcome \<Rightarrow> app_state \<Rightarrow> app_state" where
  \<comment> \<open>\<open>refineEnglishTranscript\<close> from the answer of the remote call on\<close>
  "refine_end outcome s =
     (let s1 = (case outcome of
                  Inr (Some t) \<Rightarrow> if t \<noteq> [] then splice (trim t) s else s
                | Inr None \<Rightarrow> s
                | Inl e \<Rightarrow> s)
      in s1\<lparr>refiningInProgressRef := False, isRefining := False\<rparr>)"

definition refineEnglishTranscript ::
  "(string \<Rightarrow> nat \<Rightarrow> remote_outcome) \<Rightarrow> app_state \<Rightarrow> app_state" where
  \<comment> \<open>a whole call with nothing else in between; \<open>remote chunk k\<close> answers the \<open>k\<close>-th
      attempt of the request for \<open>chunk\<close>\<close>
  "refineEnglishTranscript remote s =
     (case refine_begin s of
        None \<Rightarrow> s
      | Some (chunk, s1) \<Rightarrow> refine_end (fst (retryWithBackoff (remote chunk))) s1)"

subsection \<open>Translation\<close>

definition BATCH_SEPARATOR :: string where
  "BATCH_SEPARATOR = [CHR 0x0A, CHR 0x0A] @ ''--- BATCH PROCESSED ---'' @ [CHR 0x0A]"

definition appendTranslated :: "bool \<Rightarrow> string \<Rightarrow> string \<Rightarrow> string" where
  \<comment> \<open>the updater passed to \<open>setTranslatedText\<close>\<close>
  "appendTranslated isBatchRequest prev val =
     (if isBatchRequest then
        (let p = trimEnd prev;
             sep = (if length p > 0 \<and> \<not> endsWith p [CHR 0x0A] then BATCH_SEPARATOR else [])
         in p @ sep @ val)
      else
        (let p = trimEnd prev;
             sep = (if length p > 0 \<and> \<not> endsWith p [CHR 0x0A] then [CHR 0x0A] else [])
         in p @ sep @ val))"

datatype translation_begin =
    Return  \<comment> \<open>the call returns at once\<close>
  | Reschedule int  \<comment> \<open>the call returns after setting a timer to call again\<close>
  | Request string nat app_state  \<comment> \<open>the chunk that is sent, \<open>endIdx\<close>, and the state then\<close>

definition performTranslation_begin :: "bool \<Rightarrow> int \<Rightarrow> app_state \<Rightarrow> translation_begin" where
  \<comment> \<open>\<open>performTranslation\<close> up to the remote call, at time \<open>now\<close>\<close>
  "performTranslation_begin isBatchRequest now s =
     (if \<not> API_KEY s \<or> (translatingRef s \<and> \<not> isBatchRequest) then Return
      else
        (let elapsed = now - lastRequestTimeRef s
         in if \<not> isBatchRequest \<and> elapsed < minIntervalRef s
            then Reschedule (minIntervalRef s - elapsed + 10)
            else
              (let src = sourceText s;
                   chunk = slice src (processedRef s)
                             (if isBatchRequest then length src else refinedRef s)
               in if length (trim chunk) = 0 then Return
                  else
                    (let endIdx = (if isBatchRequest then length src else refinedRef s)
                     in Request chunk endIdx
                          (s\<lparr>translatingRef := True, isTranslating := True,
                             lastRequestTimeRef := now\<rparr>)))))"

definition performTranslation_end :: "bool \<Rightarrow> nat \<Rightarrow> remote_outcome \<Rightarrow> app_state \<Rightarrow> app_state" where
  \<comment> \<open>\<open>performTranslation\<close> from the answer of the remote call on\<close>
  "performTranslation_end isBatchRequest endIdx outcome s =
     (let s1 = (case outcome of
                  Inl e \<Rightarrow> s\<lparr>aiError := Some ''Interpreter Busy or Quota Reached.''\<rparr>
                | Inr None \<Rightarrow> s
                | Inr (Some t) \<Rightarrow>
                    if t \<noteq> [] then
                      (let val = trim t
                       in if val \<noteq> [] then
                            s\<lparr>translatedText := appendTranslated isBatchRequest (translatedText s) val,
                              processedRef := endIdx, aiError := None\<rparr>
                          else s)
                    else s)
      in s1\<lparr>translatingRef := False, isTranslating := False\<rparr>)"

definition performTranslation ::
  "bool \<Rightarrow> int \<Rightarrow> (string \<Rightarrow> remote_outcome) \<Rightarrow> app_state \<Rightarrow> app_state \<times> string list" where
  \<comment> \<open>a whole call with nothing else in between; the second component lists the chunks
      sent to the remote capability\<close>
  "performTranslation isBatchRequest now remote s =
     (case performTranslation_begin isBatchRequest now s of
        Return \<Rightarrow> (s, [])
      | Reschedule d \<Rightarrow> (s, [])
      | Request chunk endIdx s1 \<Rightarrow>
          (performTranslation_end isBatchRequest endIdx (remote chunk) s1, [chunk]))"

subsection \<open>The velocity tracker\<close>

definition velocity_tick :: "app_state \<Rightarrow> app_state" where
  \<comment> \<open>the body of the one-second interval, which runs while recording\<close>
  "velocity_tick s =
     (if status s \<noteq> RECORDING then s
      else
        (let currentLength = length (sourceText s)
         in s\<lparr>velocityRef := int currentLength - int (lastTextLengthRef s),
              lastTextLengthRef := currentLength\<rparr>))"

section \<open>Runs of the pipeline\<close>

text \<open>
  The buffer alone, under the two updates that the hook applies to it while recording.
\<close>

datatype ingest_event = FinalChunk string | SilenceElapsed

fun ingest_step :: "string \<Rightarrow> ingest_event \<Rightarrow> string" where
  "ingest_step t (FinalChunk c) = commit_final c t"
| "ingest_step t SilenceElapsed = silence_commit t"

definition ingest_run :: "ingest_event list \<Rightarrow> string" where
  \<comment> \<open>the buffer after a sequence of final chunks and silence commits, from the empty one\<close>
  "ingest_run evs = foldl ingest_step [] evs"

text \<open>
  The states a session reaches from the empty one by recognition events, the silence
  timer, the recording controls, the velocity tracker, refinement calls, incremental
  translation calls and the clear button. A remote call is two steps, its start and
  its answer, and other steps may happen in between. The second argument is \<open>endIdx\<close>
  of the incremental translation call that is waiting for its answer, if there is one.
  The clear button is taken to be pressed only while no translation call is waiting.
\<close>

inductive reachable :: "app_state \<Rightarrow> nat option \<Rightarrow> bool" where
  start: "reachable (initial_state\<lparr>API_KEY := k\<rparr>) None"
| result: "reachable s pend \<Longrightarrow> reachable (onresult ev s) pend"
| silence: "reachable s pend \<Longrightarrow> reachable (silence_timer s) pend"
| recognition_error: "reachable s pend \<Longrightarrow> reachable (fst (onerror code s)) pend"
| record_start: "reachable s pend \<Longrightarrow> reachable (startRecording s) pend"
| record_pause: "reachable s pend \<Longrightarrow> reachable (pauseRecording s) pend"
| record_stop: "reachable s pend \<Longrightarrow> reachable (stopRecording s) pend"
| tick: "reachable s pend \<Longrightarrow> reachable (velocity_tick s) pend"
| refine_call: "reachable s pend \<Longrightarrow> refine_begin s = Some (chunk, s') \<Longrightarrow> reachable s' pend"
| refine_answer:
    "reachable s pend \<Longrightarrow> refiningInProgressRef s \<Longrightarrow> reachable (refine_end outcome s) pend"
| translate_call:
    "reachable s None \<Longrightarrow> performTranslation_begin False now s = Request chunk endIdx s'
       \<Longrightarrow> reachable s' (Some endIdx)"
| translate_answer:
    "reachable s (Some endIdx) \<Longrightarrow> reachable (performTranslation_end False endIdx outcome s) None"
| clear: "reachable s None \<Longrightarrow> reachable (onClear s) None"

definition trailing :: "string \<Rightarrow> nat" where
  \<comment> \<open>the number of white-space characters at the end\<close>
  "trailing s = length (takeWhile isSpace (rev s))"

definition grows :: "string \<Rightarrow> string \<Rightarrow> bool" where
  \<comment> \<open>\<open>t'\<close> is \<open>t\<close> followed by units that are not empty and have no white space at
      their ends, each unit after a one-character separator unless the text before it
      is empty\<close>
  "grows t t' \<longleftrightarrow>
     (\<exists>ext. t' = t @ ext \<and> ext \<noteq> [] \<and> \<not> isSpace (last ext) \<and>
        (if t = [] then \<not> isSpace (hd ext)
         else isSpace (hd ext) \<and> tl ext \<noteq> [] \<and> \<not> isSpace (hd (tl ext))))"

definition text_inv :: "string \<Rightarrow> nat \<Rightarrow> bool" where
  \<comment> \<open>the shape of the source buffer \<open>t\<close> around the refined watermark \<open>r\<close>\<close>
  "text_inv t r \<longleftrightarrow>
     (t = [] \<or> \<not> isSpace (hd t)) \<and>
     trailing t \<le> 2 \<and>
     r \<le> length t \<and>
     (r \<le> length (trimEnd t) \<longrightarrow> trailing (take r t) \<le> 1)"

definition pipeline_inv :: "app_state \<Rightarrow> nat option \<Rightarrow> bool" where
  "pipeline_inv s pend \<longleftrightarrow>
     text_inv (sourceText s) (refinedRef s) \<and>
     processedRef s \<le> refinedRef s \<and>
     (refiningInProgressRef s \<longrightarrow> refinedRef s \<le> length (trimEnd (sourceText s))) \<and>
     (case pend of None \<Rightarrow> True | Some endIdx \<Rightarrow> endIdx \<le> refinedRef s \<and> translatingRef s)"

section \<open>Facts about trimming and capitalizing\<close>

lemma trimEnd_decomp: "t = trimEnd t @ rev (takeWhile isSpace (rev t))"
proof -
  have "rev (dropWhile isSpace (rev t)) @ rev (takeWhile isSpace (rev t))
          = rev (takeWhile isSpace (rev t) @ dropWhile isSpace (rev t))"
    by (simp only: rev_append)
  also have "\<dots> = t"
    by simp
  finally show ?thesis
    by (simp only: trimEnd_def)
qed

lemma length_trimEnd: "length t = length (trimEnd t) + trailing t"
proof -
  have "length t = length (trimEnd t @ rev (takeWhile isSpace (rev t)))"
    using trimEnd_decomp [of t] by simp
  then show ?thesis
    by (simp add: trailing_def)
qed

lemma trimEnd_nonspace_last: "trimEnd s \<noteq> [] \<Longrightarrow> \<not> isSpace (last (trimEnd s))"
  unfolding trimEnd_def
  by (metis (no_types, lifting) hd_dropWhile last_rev rev_is_Nil_conv)

lemma trimEnd_append_nonspace:
  "ys \<noteq> [] \<Longrightarrow> \<not> isSpace (last ys) \<Longrightarrow> trimEnd (xs @ ys) = xs @ ys"
  by (cases ys rule: rev_cases) (auto simp: trimEnd_def)

lemma trailing_append_nonspace:
  "ys \<noteq> [] \<Longrightarrow> \<not> isSpace (last ys) \<Longrightarrow> trailing (xs @ ys) = 0"
  by (cases ys rule: rev_cases) (auto simp: trailing_def)

lemma trailing_Nil: "trailing [] = 0"
  by (simp add: trailing_def)

lemma trailing_snoc: "trailing (xs @ [c]) = (if isSpace c then Suc (trailing xs) else 0)"
  by (simp add: trailing_def)

lemma trimEnd_snoc: "trimEnd (xs @ [c]) = (if isSpace c then trimEnd xs else xs @ [c])"
  by (simp add: trimEnd_def)

lemma trimEnd_Nil: "trimEnd [] = []"
  by (simp add: trimEnd_def)

lemma trimEnd_is_Nil: "trimEnd t = [] \<Longrightarrow> t = [] \<or> isSpace (hd t)"
  unfolding trimEnd_def
  by (cases t) auto

lemma take_trimEnd: "r \<le> length (trimEnd t) \<Longrightarrow> take r t = take r (trimEnd t)"
proof -
  assume "r \<le> length (trimEnd t)"
  then have "take r (trimEnd t @ rev (takeWhile isSpace (rev t))) = take r (trimEnd t)"
    by simp
  then show ?thesis
    using trimEnd_decomp [of t] by simp
qed

lemma hd_trimEnd: "t \<noteq> [] \<Longrightarrow> \<not> isSpace (hd t) \<Longrightarrow> trimEnd t \<noteq> [] \<and> hd (trimEnd t) = hd t"
proof -
  assume a: "t \<noteq> []" "\<not> isSpace (hd t)"
  then have n: "trimEnd t \<noteq> []"
    using trimEnd_is_Nil [of t] by auto
  moreover have "hd (trimEnd t @ rev (takeWhile isSpace (rev t))) = hd (trimEnd t)"
    using n by simp
  ultimately show ?thesis
    using trimEnd_decomp [of t] by simp
qed

lemma trim_props: "trim s = [] \<or> (\<not> isSpace (hd (trim s)) \<and> \<not> isSpace (last (trim s)))"
proof (cases "dropWhile isSpace s = []")
  case True
  have "trim s = trimEnd (dropWhile isSpace s)"
    by (simp only: trim_def trimStart_def)
  also have "\<dots> = []"
    by (simp only: True trimEnd_Nil)
  finally show ?thesis by simp
next
  case False
  then have "\<not> isSpace (hd (dropWhile isSpace s))"
    by (rule hd_dropWhile)
  with False hd_trimEnd [of "dropWhile isSpace s"] trimEnd_nonspace_last [of "dropWhile isSpace s"]
  show ?thesis
    by (simp add: trim_def trimStart_def)
qed

lemma trim_eq_Nil_iff: "trim s = [] \<longleftrightarrow> (\<forall>x \<in> set s. isSpace x)"
proof
  assume "trim s = []"
  then have "dropWhile isSpace s = [] \<or> isSpace (hd (dropWhile isSpace s))"
    using trimEnd_is_Nil [of "dropWhile isSpace s"] by (simp add: trim_def trimStart_def)
  then have "dropWhile isSpace s = []"
    using hd_dropWhile [of isSpace s] by blast
  then show "\<forall>x \<in> set s. isSpace x"
    by simp
next
  assume "\<forall>x \<in> set s. isSpace x"
  then have "dropWhile isSpace s = []"
    by simp
  then show "trim s = []"
    by (simp only: trim_def trimStart_def trimEnd_Nil)
qed

lemma upperCaseLetters_nonspace: "u \<in> set upperCaseLetters \<Longrightarrow> \<not> isSpace u"
  by (auto simp: upperCaseLetters_def isSpace_def)

lemma toUpperCase_char_props:
  "toUpperCase_char c \<noteq> [] \<and>
   (\<not> isSpace c \<longrightarrow> (\<forall>u \<in> set (toUpperCase_char c). \<not> isSpace u))"
proof (cases "c = CHR 0xDF")
  case True
  then show ?thesis by (simp add: toUpperCase_char_def isSpace_def)
next
  case False
  show ?thesis
  proof (cases "map_of (zip lowerCaseLetters upperCaseLetters) c")
    case None
    with False show ?thesis by (simp add: toUpperCase_char_def)
  next
    case (Some u)
    then have "(c, u) \<in> set (zip lowerCaseLetters upperCaseLetters)"
      by (rule map_of_SomeD)
    then have "u \<in> set upperCaseLetters"
      by (rule set_zip_rightD)
    then have "\<not> isSpace u"
      by (rule upperCaseLetters_nonspace)
    with False Some show ?thesis by (simp add: toUpperCase_char_def)
  qed
qed

lemma capitalize_props:
  assumes "s \<noteq> []" and "\<not> isSpace (hd s)" and "\<not> isSpace (last s)"
  shows "capitalize s \<noteq> [] \<and> \<not> isSpace (hd (capitalize s)) \<and> \<not> isSpace (last (capitalize s))"
proof -
  from assms(1) obtain c cs where s: "s = c # cs"
    by (cases s) auto
  let ?u = "toUpperCase_char c"
  from assms(2) s toUpperCase_char_props [of c]
  have u: "?u \<noteq> []" "\<forall>x \<in> set ?u. \<not> isSpace x"
    by simp_all
  have "hd ?u \<in> set ?u" "last ?u \<in> set ?u"
    using u(1) by simp_all
  with u(2) have hl: "\<not> isSpace (hd ?u)" "\<not> isSpace (last ?u)"
    by blast+
  have "\<not> isSpace (last (?u @ cs))"
  proof (cases "cs = []")
    case True
    with hl(2) show ?thesis by simp
  next
    case False
    with assms(3) s show ?thesis by simp
  qed
  with u(1) hl(1) show ?thesis
    by (simp add: s)
qed

lemma capitalize_Nil_iff: "capitalize s = [] \<longleftrightarrow> s = []"
  using toUpperCase_char_props by (cases s) auto

section \<open>Segmentation and the silence commit\<close>

text \<open>
  C3 (as amended). From the empty buffer, the final chunks \<open>hello world\<close> and
  \<open>this is a test.\<close>, committed one after the other, and then the silence timer leave
  the buffer \<open>Hello world This is a test.\<close> followed by two line feeds: every unit that is
  committed is capitalized, the second one too.
\<close>

theorem scenario_hello_world:
  "sourceText
     (silence_timer
       (onresult \<lparr>resultIndex = 0, results = [\<lparr>isFinal = True, transcript = ''this is a test.''\<rparr>]\<rparr>
         (onresult \<lparr>resultIndex = 0, results = [\<lparr>isFinal = True, transcript = ''hello world''\<rparr>]\<rparr>
           (startRecording initial_state))))
   = ''Hello world This is a test.'' @ [CHR 0x0A, CHR 0x0A]"
  by code_simp

text \<open>
  In that scenario the silence timer is armed when it fires: the session is recording
  and no interim text is pending.
\<close>

theorem scenario_hello_world_witness:
  "status
     (onresult \<lparr>resultIndex = 0, results = [\<lparr>isFinal = True, transcript = ''this is a test.''\<rparr>]\<rparr>
       (onresult \<lparr>resultIndex = 0, results = [\<lparr>isFinal = True, transcript = ''hello world''\<rparr>]\<rparr>
         (startRecording initial_state))) = RECORDING \<and>
   interimText
     (onresult \<lparr>resultIndex = 0, results = [\<lparr>isFinal = True, transcript = ''this is a test.''\<rparr>]\<rparr>
       (onresult \<lparr>resultIndex = 0, results = [\<lparr>isFinal = True, transcript = ''hello world''\<rparr>]\<rparr>
         (startRecording initial_state))) = [] \<and>
   length
     (sourceText
       (silence_timer
         (onresult \<lparr>resultIndex = 0, results = [\<lparr>isFinal = True, transcript = ''this is a test.''\<rparr>]\<rparr>
           (onresult \<lparr>resultIndex = 0, results = [\<lparr>isFinal = True, transcript = ''hello world''\<rparr>]\<rparr>
             (startRecording initial_state))))) = 29"
proof -
  have "status
     (onresult \<lparr>resultIndex = 0, results = [\<lparr>isFinal = True, transcript = ''this is a test.''\<rparr>]\<rparr>
       (onresult \<lparr>resultIndex = 0, results = [\<lparr>isFinal = True, transcript = ''hello world''\<rparr>]\<rparr>
         (startRecording initial_state))) = RECORDING"
    by code_simp
  moreover have "interimText
     (onresult \<lparr>resultIndex = 0, results = [\<lparr>isFinal = True, transcript = ''this is a test.''\<rparr>]\<rparr>
       (onresult \<lparr>resultIndex = 0, results = [\<lparr>isFinal = True, transcript = ''hello world''\<rparr>]\<rparr>
         (startRecording initial_state))) = []"
    by code_simp
  ultimately show ?thesis
    using scenario_hello_world by simp
qed

text \<open>
  The buffer of that scenario is not the string with a lower-case \<open>this\<close>.
\<close>

theorem scenario_hello_world_not_lower_case:
  "sourceText
     (silence_timer
       (onresult \<lparr>resultIndex = 0, results = [\<lparr>isFinal = True, transcript = ''this is a test.''\<rparr>]\<rparr>
         (onresult \<lparr>resultIndex = 0, results = [\<lparr>isFinal = True, transcript = ''hello world''\<rparr>]\<rparr>
           (startRecording initial_state))))
   \<noteq> ''Hello world this is a test.'' @ [CHR 0x0A, CHR 0x0A]"
  by code_simp

lemma lastLine_nonempty: "lastLine t \<noteq> [] \<Longrightarrow> t \<noteq> []"
  by (auto simp: lastLine_def)

section \<open>Recognition errors\<close>

lemma onerror_status:
  "status (fst (onerror code s)) = status s"
  by (simp add: onerror_def Let_def)

lemma run_errors_count:
  "status s = RECORDING \<Longrightarrow> snd (run_errors codes s) = min (3 - restartCount s) (length codes)"
proof (induction codes arbitrary: s)
  case Nil
  then show ?case by simp
next
  case (Cons code codes)
  obtain s1 r where st: "onerror code s = (s1, r)"
    by (cases "onerror code s")
  have "status s1 = RECORDING"
    using onerror_status [of code s] st Cons.prems by simp
  from Cons.IH [OF this] st Cons.prems show ?case
    by (auto simp: onerror_def Let_def split: if_splits prod.splits)
qed

text \<open>
  C10 (as amended). While recording, a recognition error of any category, also the
  permission denial \<open>not-allowed\<close>, schedules a restart of the recognizer from the error
  handler as long as fewer than three restarts were scheduled since the last result event
  or start; consecutive errors so schedule three restarts at most. The error message is
  set at every error; a result event and the start of a recording set the counter back to
  zero.
\<close>

theorem onerror_restart_policy:
  "snd (onerror code s) = (if status s = RECORDING \<and> restartCount s < 3 then Some 500 else None) \<and>
   error (fst (onerror code s)) \<noteq> None \<and>
   (status s = RECORDING \<and> restartCount s = 0
      \<longrightarrow> snd (run_errors codes s) = min 3 (length codes)) \<and>
   restartCount (onresult ev s) = 0 \<and>
   restartCount (startRecording s) = 0"
  using run_errors_count [of s codes]
  by (auto simp: onerror_def onresult_def startRecording_def Let_def)

theorem onerror_restart_policy_witness:
  "status (startRecording initial_state) = RECORDING \<and>
   restartCount (startRecording initial_state) = 0 \<and>
   snd (run_errors [''network'', ''not-allowed'', ''aborted'', ''no-speech'', ''network'']
          (startRecording initial_state)) = 3"
  using onerror_restart_policy
    [of "''network''" "startRecording initial_state"
        "[''network'', ''not-allowed'', ''aborted'', ''no-speech'', ''network'']"]
  by (simp add: startRecording_def initial_state_def)

text \<open>
  While recording, the error \<open>not-allowed\<close> (the user denied the permission) schedules a
  restart as any other error does.
\<close>

theorem onerror_not_allowed_restarts:
  "error (fst (onerror ''not-allowed'' (startRecording initial_state))) = Some NotAllowed \<and>
   snd (onerror ''not-allowed'' (startRecording initial_state)) = Some 500"
  by code_simp

section \<open>The retry wrapper of the refiner\<close>

declare retryWithBackoff_from.simps [simp del]

lemma retryWithBackoff_unfold:
  "retryWithBackoff fn =
     (case fn 0 of
        Inr v \<Rightarrow> (Inr v, [])
      | Inl e0 \<Rightarrow> if \<not> isQuota e0 then (Inl e0, []) else
     (case fn (Suc 0) of
        Inr v \<Rightarrow> (Inr v, [1000])
      | Inl e1 \<Rightarrow> if \<not> isQuota e1 then (Inl e1, [1000]) else
     (case fn (Suc (Suc 0)) of
        Inr v \<Rightarrow> (Inr v, [1000, 2000])
      | Inl e2 \<Rightarrow> if \<not> isQuota e2 then (Inl e2, [1000, 2000]) else
     (fn (Suc (Suc (Suc 0))), [1000, 2000, 4000]))))"
  unfolding retryWithBackoff_def
  apply (subst retryWithBackoff_from.simps)
  apply (subst retryWithBackoff_from.simps)
  apply (subst retryWithBackoff_from.simps)
  apply (subst retryWithBackoff_from.simps)
  apply (simp split: sum.splits)
  done

text \<open>
  C9. The retry wrapper, as the refiner calls it, waits 1000, 2000 and 4000 ms before its
  retries and retries three times at most; every retry follows an error of the rate-limit
  class (status 429, or a message that contains \<open>429\<close>); the result is the outcome of the
  last attempt, and an error of any other class is returned at once, with no retry.
\<close>

theorem retry_policy:
  "(case retryWithBackoff fn of (r, ds) \<Rightarrow>
      prefix ds [1000, 2000, 4000] \<and>
      (\<forall>i < length ds. \<exists>e. fn i = Inl e \<and> isQuota e) \<and>
      r = fn (length ds) \<and>
      (length ds < 3 \<longrightarrow> (\<forall>e. r = Inl e \<longrightarrow> \<not> isQuota e)) \<and>
      (\<forall>e. fn 0 = Inl e \<and> \<not> isQuota e \<longrightarrow> r = Inl e \<and> ds = []))"
  unfolding retryWithBackoff_unfold
  by (auto split: sum.splits simp: less_Suc_eq prefix_def)

theorem retry_policy_witness:
  "retryWithBackoff
     (\<lambda>k. if k < 2 then Inl \<lparr>err_status = Some 429, err_message = None\<rparr> else Inr ''ok'')
     = (Inr ''ok'', [1000, 2000]) \<and>
   retryWithBackoff
     (\<lambda>k. if k < 9 then Inl \<lparr>err_status = None, err_message = Some ''code 429: quota''\<rparr>
           else Inr ''ok'')
     = (Inl \<lparr>err_status = None, err_message = Some ''code 429: quota''\<rparr>, [1000, 2000, 4000]) \<and>
   retryWithBackoff
     (\<lambda>k. if k < 2 then Inl \<lparr>err_status = Some 500, err_message = Some ''internal''\<rparr>
           else Inr ''ok'')
     = (Inl \<lparr>err_status = Some 500, err_message = Some ''internal''\<rparr>, [])"
proof -
  have q: "isQuota \<lparr>err_status = None, err_message = Some ''code 429: quota''\<rparr>"
    by code_simp
  have q1: "isQuota \<lparr>err_status = Some 429, err_message = None\<rparr>"
    by code_simp
  have q2: "\<not> isQuota \<lparr>err_status = Some 500, err_message = Some ''internal''\<rparr>"
    by code_simp
  show ?thesis
  using q q1 q2
    retry_policy [of "\<lambda>k. if k < 2 then Inl \<lparr>err_status = Some 429, err_message = None\<rparr>
                          else Inr ''ok''"]
    retry_policy [of "\<lambda>k. if k < 9
                          then Inl \<lparr>err_status = None, err_message = Some ''code 429: quota''\<rparr>
                          else Inr ''ok''"]
    retry_policy [of "\<lambda>k. if k < 2
                          then Inl \<lparr>err_status = Some 500, err_message = Some ''internal''\<rparr>
                          else Inr ''ok''"]
  by (simp add: retryWithBackoff_unfold)
qed

section \<open>Translation\<close>

lemma trim_nonempty: "trim t \<noteq> [] \<Longrightarrow> t \<noteq> []"
  by (auto simp: trim_def trimStart_def trimEnd_def)

lemma isSpace_LF: "isSpace (CHR 0x0A)"
  by (simp add: isSpace_def)

lemma trimEnd_not_endsWith_LF: "trimEnd s \<noteq> [] \<Longrightarrow> \<not> endsWith (trimEnd s) [CHR 0x0A]"
  using trimEnd_nonspace_last [of s] isSpace_LF
  by (auto simp: endsWith_def suffix_def)

lemma appendTranslated_eq:
  "appendTranslated b prev val =
     trimEnd prev @ (if trimEnd prev = [] then [] else if b then BATCH_SEPARATOR else [CHR 0x0A]) @ val"
  using trimEnd_not_endsWith_LF [of prev]
  by (auto simp: appendTranslated_def Let_def)

lemma performTranslation_success:
  assumes "performTranslation_begin b now s = Request chunk endIdx s1"
    and "remote chunk = Inr (Some t)" and "trim t \<noteq> []"
  shows "processedRef (fst (performTranslation b now remote s)) = endIdx"
    and "translatedText (fst (performTranslation b now remote s))
           = appendTranslated b (translatedText s) (trim t)"
proof -
  from assms(1) have "translatedText s1 = translatedText s"
    by (auto simp: performTranslation_begin_def Let_def split: if_splits)
  with assms trim_nonempty [OF assms(3)]
  show "processedRef (fst (performTranslation b now remote s)) = endIdx"
    and "translatedText (fst (performTranslation b now remote s))
           = appendTranslated b (translatedText s) (trim t)"
    by (simp_all add: performTranslation_def performTranslation_end_def Let_def)
qed

lemma batch_marker_in_separator:
  "sublist ''--- BATCH PROCESSED ---'' (p @ BATCH_SEPARATOR @ v)"
proof -
  have "p @ BATCH_SEPARATOR @ v
          = (p @ [CHR 0x0A, CHR 0x0A]) @ ''--- BATCH PROCESSED ---'' @ ([CHR 0x0A] @ v)"
    by (simp add: BATCH_SEPARATOR_def)
  then show ?thesis
    unfolding sublist_def by blast
qed

text \<open>
  C5 (as amended). A successful translation commit, incremental or batch, first removes
  the white space at the end of the translated buffer and then appends the separator and
  the new output: the previous content without its trailing white space is a prefix of
  the new buffer, and the previous content itself is one when it has no trailing white
  space.
\<close>

theorem translated_append_only:
  assumes "performTranslation_begin b now s = Request chunk endIdx s1"
    and "remote chunk = Inr (Some t)" and "trim t \<noteq> []"
  shows "prefix (trimEnd (translatedText s)) (translatedText (fst (performTranslation b now remote s))) \<and>
         translatedText (fst (performTranslation b now remote s))
           = trimEnd (translatedText s)
               @ (if trimEnd (translatedText s) = [] then []
                  else if b then BATCH_SEPARATOR else [CHR 0x0A])
               @ trim t \<and>
         (trimEnd (translatedText s) = translatedText s
            \<longrightarrow> prefix (translatedText s) (translatedText (fst (performTranslation b now remote s))))"
proof -
  from assms(3) have "t \<noteq> []"
    by (auto simp: trim_def trimStart_def trimEnd_def)
  moreover from assms(1) have "translatedText s1 = translatedText s"
    by (auto simp: performTranslation_begin_def Let_def split: if_splits)
  ultimately have "translatedText (fst (performTranslation b now remote s))
           = appendTranslated b (translatedText s) (trim t)"
    using assms by (simp add: performTranslation_def performTranslation_end_def Let_def)
  then show ?thesis
    by (simp add: appendTranslated_eq)
qed

theorem translated_append_only_witness:
  "performTranslation_begin False 1000 (initial_state\<lparr>sourceText := ''Hello. World.'', refinedRef := 6,
       translatedText := ''Ghi chu:  ''\<rparr>)
     = Request ''Hello.'' 6
         (initial_state\<lparr>sourceText := ''Hello. World.'', refinedRef := 6,
            translatedText := ''Ghi chu:  '', translatingRef := True, isTranslating := True,
            lastRequestTimeRef := 1000\<rparr>) \<and>
   trim '' Xin chao. '' \<noteq> [] \<and>
   translatedText (fst (performTranslation False 1000 (\<lambda>c. Inr (Some '' Xin chao. ''))
       (initial_state\<lparr>sourceText := ''Hello. World.'', refinedRef := 6,
          translatedText := ''Ghi chu:  ''\<rparr>)))
     = ''Ghi chu:'' @ [CHR 0x0A] @ ''Xin chao.''"
proof -
  have b: "performTranslation_begin False 1000 (initial_state\<lparr>sourceText := ''Hello. World.'',
       refinedRef := 6, translatedText := ''Ghi chu:  ''\<rparr>)
     = Request ''Hello.'' 6
         (initial_state\<lparr>sourceText := ''Hello. World.'', refinedRef := 6,
            translatedText := ''Ghi chu:  '', translatingRef := True, isTranslating := True,
            lastRequestTimeRef := 1000\<rparr>)"
    by code_simp
  have t: "trim '' Xin chao. '' \<noteq> []"
    by code_simp
  have t': "trim '' Xin chao. '' = ''Xin chao.''"
    by code_simp
  have p: "trimEnd ''Ghi chu:  '' = ''Ghi chu:''"
    by code_simp
  from translated_append_only [OF b _ t, of "\<lambda>c. Inr (Some '' Xin chao. '')"] b t t' p
  show ?thesis
    by (simp add: initial_state_def)
qed

text \<open>
  A translated buffer that ends in two spaces is not a prefix of the buffer after the
  next commit.
\<close>

theorem translated_trailing_space_dropped:
  "\<not> prefix (translatedText (initial_state\<lparr>sourceText := ''Hello. World.'', refinedRef := 6,
          translatedText := ''Ghi chu:  ''\<rparr>))
     (translatedText (fst (performTranslation False 1000 (\<lambda>c. Inr (Some '' Xin chao. ''))
       (initial_state\<lparr>sourceText := ''Hello. World.'', refinedRef := 6,
          translatedText := ''Ghi chu:  ''\<rparr>))))"
  by code_simp

text \<open>
  C6. A call of \<open>performTranslation\<close> that reaches the remote capability sends the slice
  from the translated watermark to \<open>endIdx\<close>, which is not white space only. The
  watermark moves to \<open>endIdx\<close>, and the output is appended, exactly when the answer has a
  text that is not empty after trimming; with an empty text, no text or an error the
  watermark and the translated buffer stay as they were. When the slice is empty or white
  space only nothing is sent and the state is unchanged.
\<close>

theorem translation_watermark:
  "(case performTranslation_begin b now s of
      Request chunk endIdx s1 \<Rightarrow>
        endIdx = (if b then length (sourceText s) else refinedRef s) \<and>
        chunk = slice (sourceText s) (processedRef s) endIdx \<and>
        trim chunk \<noteq> [] \<and>
        snd (performTranslation b now remote s) = [chunk] \<and>
        (case remote chunk of
           Inr (Some t) \<Rightarrow>
             if trim t \<noteq> []
             then processedRef (fst (performTranslation b now remote s)) = endIdx \<and>
                  translatedText (fst (performTranslation b now remote s))
                    = appendTranslated b (translatedText s) (trim t)
             else processedRef (fst (performTranslation b now remote s)) = processedRef s \<and>
                  translatedText (fst (performTranslation b now remote s)) = translatedText s
         | Inr None \<Rightarrow>
             processedRef (fst (performTranslation b now remote s)) = processedRef s \<and>
             translatedText (fst (performTranslation b now remote s)) = translatedText s
         | Inl e \<Rightarrow>
             processedRef (fst (performTranslation b now remote s)) = processedRef s \<and>
             translatedText (fst (performTranslation b now remote s)) = translatedText s)
    | Reschedule d \<Rightarrow> performTranslation b now remote s = (s, [])
    | Return \<Rightarrow> performTranslation b now remote s = (s, [])) \<and>
   (trim (slice (sourceText s) (processedRef s) (if b then length (sourceText s) else refinedRef s)) = []
      \<longrightarrow> performTranslation b now remote s = (s, []))"
proof -
  have nonempty: "t \<noteq> []" if "trim t \<noteq> []" for t
    using that by (auto simp: trim_def trimStart_def trimEnd_def)
  have 1: "performTranslation b now remote s = (s, [])"
    if "trim (slice (sourceText s) (processedRef s)
          (if b then length (sourceText s) else refinedRef s)) = []"
    using that
    by (auto simp: performTranslation_def performTranslation_begin_def Let_def)
  show ?thesis
  proof (cases "performTranslation_begin b now s")
    case Return
    with 1 show ?thesis by (simp add: performTranslation_def)
  next
    case (Reschedule d)
    with 1 show ?thesis by (simp add: performTranslation_def)
  next
    case (Request chunk endIdx s1)
    then have e: "endIdx = (if b then length (sourceText s) else refinedRef s)"
      and c: "chunk = slice (sourceText s) (processedRef s) endIdx"
      and n: "trim chunk \<noteq> []"
      and s1: "processedRef s1 = processedRef s" "translatedText s1 = translatedText s"
      by (auto simp: performTranslation_begin_def Let_def split: if_splits)
    have r: "performTranslation b now remote s
               = (performTranslation_end b endIdx (remote chunk) s1, [chunk])"
      using Request by (simp add: performTranslation_def)
    have calls: "snd (performTranslation b now remote s) = [chunk]"
      by (simp add: r)
    have answer: "case remote chunk of
           Inr (Some t) \<Rightarrow>
             if trim t \<noteq> []
             then processedRef (fst (performTranslation b now remote s)) = endIdx \<and>
                  translatedText (fst (performTranslation b now remote s))
                    = appendTranslated b (translatedText s) (trim t)
             else processedRef (fst (performTranslation b now remote s)) = processedRef s \<and>
                  translatedText (fst (performTranslation b now remote s)) = translatedText s
         | Inr None \<Rightarrow>
             processedRef (fst (performTranslation b now remote s)) = processedRef s \<and>
             translatedText (fst (performTranslation b now remote s)) = translatedText s
         | Inl e \<Rightarrow>
             processedRef (fst (performTranslation b now remote s)) = processedRef s \<and>
             translatedText (fst (performTranslation b now remote s)) = translatedText s"
      using s1 nonempty
      by (auto simp: r performTranslation_end_def Let_def split: sum.splits option.splits)
    show ?thesis
      apply (simp only: Request translation_begin.case)
      apply (intro conjI impI)
           apply (rule e)
          apply (rule c)
         apply (rule n)
        apply (rule calls)
       apply (rule answer)
      apply (erule 1)
      done
  qed
qed

theorem translation_watermark_witness:
  "performTranslation_begin False 1000 (initial_state\<lparr>sourceText := ''Hello. World.'', refinedRef := 6\<rparr>)
     = Request ''Hello.'' 6
         (initial_state\<lparr>sourceText := ''Hello. World.'', refinedRef := 6, translatingRef := True,
            isTranslating := True, lastRequestTimeRef := 1000\<rparr>) \<and>
   processedRef (fst (performTranslation False 1000 (\<lambda>c. Inr (Some ''Xin chao.''))
       (initial_state\<lparr>sourceText := ''Hello. World.'', refinedRef := 6\<rparr>))) = 6 \<and>
   processedRef (fst (performTranslation False 1000 (\<lambda>c. Inr (Some []))
       (initial_state\<lparr>sourceText := ''Hello. World.'', refinedRef := 6\<rparr>))) = 0 \<and>
   translatedText (fst (performTranslation False 1000 (\<lambda>c. Inr (Some []))
       (initial_state\<lparr>sourceText := ''Hello. World.'', refinedRef := 6\<rparr>))) = [] \<and>
   trim (slice ''Hello.   World.'' 6 9) = [] \<and>
   performTranslation False 1000 (\<lambda>c. Inr (Some ''Xin chao.''))
       (initial_state\<lparr>sourceText := ''Hello.   World.'', refinedRef := 9, processedRef := 6\<rparr>)
     = (initial_state\<lparr>sourceText := ''Hello.   World.'', refinedRef := 9, processedRef := 6\<rparr>, [])"
proof -
  have b: "performTranslation_begin False 1000
             (initial_state\<lparr>sourceText := ''Hello. World.'', refinedRef := 6\<rparr>)
     = Request ''Hello.'' 6
         (initial_state\<lparr>sourceText := ''Hello. World.'', refinedRef := 6, translatingRef := True,
            isTranslating := True, lastRequestTimeRef := 1000\<rparr>)"
    by code_simp
  have t: "trim ''Xin chao.'' \<noteq> []" "trim [] = []"
    by code_simp+
  have w: "trim (slice ''Hello.   World.'' 6 9) = []"
    by code_simp
  have i: "processedRef initial_state = 0" "translatedText initial_state = []"
    by (simp_all add: initial_state_def)
  from b t w i
    translation_watermark [where b = False and now = 1000
      and s = "initial_state\<lparr>sourceText := ''Hello. World.'', refinedRef := 6\<rparr>"
      and remote = "\<lambda>c. Inr (Some ''Xin chao.'')"]
    translation_watermark [where b = False and now = 1000
      and s = "initial_state\<lparr>sourceText := ''Hello. World.'', refinedRef := 6\<rparr>"
      and remote = "\<lambda>c. Inr (Some [])"]
    translation_watermark [where b = False and now = 1000
      and s = "initial_state\<lparr>sourceText := ''Hello.   World.'', refinedRef := 9, processedRef := 6\<rparr>"
      and remote = "\<lambda>c. Inr (Some ''Xin chao.'')"]
  show ?thesis
    by simp
qed

text \<open>
  C7 (as amended). After a successful batch translation of the buffer \<open>Hello. World.\<close>
  with the translated watermark at 0, the watermark is 13. The translated buffer contains
  the batch marker when the translated buffer before had a character that is not white
  space; when it was empty or white space only, the new buffer is the trimmed output alone.
\<close>

theorem batch_scenario:
  assumes "API_KEY s" and "sourceText s = ''Hello. World.''" and "processedRef s = 0"
    and "remote ''Hello. World.'' = Inr (Some t)" and "trim t \<noteq> []"
  shows "processedRef (fst (performTranslation True now remote s)) = 13 \<and>
         (trimEnd (translatedText s) \<noteq> []
            \<longrightarrow> sublist ''--- BATCH PROCESSED ---''
                  (translatedText (fst (performTranslation True now remote s)))) \<and>
         (trimEnd (translatedText s) = []
            \<longrightarrow> translatedText (fst (performTranslation True now remote s)) = trim t)"
proof -
  have tr: "trim ''Hello. World.'' \<noteq> []"
    by code_simp
  have b: "performTranslation_begin True now s
     = Request ''Hello. World.'' 13
         (s\<lparr>translatingRef := True, isTranslating := True, lastRequestTimeRef := now\<rparr>)"
    using assms(1-3) tr by (simp add: performTranslation_begin_def slice_def Let_def)
  note ok = performTranslation_success [where remote = remote, OF b assms(4) assms(5)]
  show ?thesis
    using batch_marker_in_separator [of "trimEnd (translatedText s)" "trim t"]
    by (simp add: ok appendTranslated_eq)
qed

theorem batch_scenario_witness:
  "API_KEY (initial_state\<lparr>sourceText := ''Hello. World.'', translatedText := ''Xin chao.''\<rparr>) \<and>
   trim ''The gioi.'' \<noteq> [] \<and> trimEnd ''Xin chao.'' \<noteq> [] \<and>
   processedRef (fst (performTranslation True 0 (\<lambda>c. Inr (Some ''The gioi.''))
      (initial_state\<lparr>sourceText := ''Hello. World.'', translatedText := ''Xin chao.''\<rparr>))) = 13 \<and>
   sublist ''--- BATCH PROCESSED ---''
     (translatedText (fst (performTranslation True 0 (\<lambda>c. Inr (Some ''The gioi.''))
        (initial_state\<lparr>sourceText := ''Hello. World.'', translatedText := ''Xin chao.''\<rparr>))))"
proof -
  have t: "trim ''The gioi.'' \<noteq> []" and p: "trimEnd ''Xin chao.'' \<noteq> []"
    by code_simp+
  from t p
    batch_scenario [where s = "initial_state\<lparr>sourceText := ''Hello. World.'', translatedText := ''Xin chao.''\<rparr>"
      and remote = "\<lambda>c. Inr (Some ''The gioi.'')" and t = "''The gioi.''" and now = 0]
  show ?thesis
    by (simp add: initial_state_def)
qed

text \<open>
  With an empty translated buffer the batch translation leaves no marker.
\<close>

theorem batch_scenario_no_marker:
  "processedRef (fst (performTranslation True 0 (\<lambda>c. Inr (Some ''Xin chao. The gioi.''))
      (initial_state\<lparr>sourceText := ''Hello. World.''\<rparr>))) = 13 \<and>
   \<not> sublist ''--- BATCH PROCESSED ---''
     (translatedText (fst (performTranslation True 0 (\<lambda>c. Inr (Some ''Xin chao. The gioi.''))
        (initial_state\<lparr>sourceText := ''Hello. World.''\<rparr>))))"
  by code_simp

section \<open>Refinement\<close>

lemma endsWith_LF: "endsWith h [CHR 0x0A] \<longleftrightarrow> h \<noteq> [] \<and> last h = CHR 0x0A"
  by (cases h rule: rev_cases) (auto simp: endsWith_def)

text \<open>
  C2 (as amended). The splice of a successful refinement is anchored at the refined
  watermark: the buffer before the watermark, \<open>head\<close>, is kept as it is, and whatever
  follows the watermark when the answer arrives, \<open>tail\<close>, is replaced by the separator and
  the corrected text; the watermark moves to the end of the new buffer. The result does
  not depend on \<open>tail\<close>, so text appended while the request was in flight is replaced
  together with the slice that was sent.
\<close>

theorem splice_anchored:
  assumes "t \<noteq> []" and "refinedRef s = length head"
  shows "sourceText (refine_end (Inr (Some t)) (s\<lparr>sourceText := head @ tail\<rparr>))
           = head @ (if head = [] \<or> last head = CHR 0x0A then [] else '' '') @ trim t \<and>
         refinedRef (refine_end (Inr (Some t)) (s\<lparr>sourceText := head @ tail\<rparr>))
           = length (sourceText (refine_end (Inr (Some t)) (s\<lparr>sourceText := head @ tail\<rparr>))) \<and>
         take (refinedRef s) (sourceText (refine_end (Inr (Some t)) (s\<lparr>sourceText := head @ tail\<rparr>)))
           = head"
  using assms
  by (auto simp: refine_end_def splice_def slice_def Let_def endsWith_LF)

theorem splice_anchored_witness:
  "''Fixed.'' \<noteq> [] \<and> refinedRef (initial_state\<lparr>refinedRef := 6\<rparr>) = length ''Intro.'' \<and>
   sourceText (refine_end (Inr (Some ''Fixed.''))
      (initial_state\<lparr>refinedRef := 6, sourceText := ''Intro.'' @ '' raw text And more''\<rparr>))
     = ''Intro. Fixed.''"
proof -
  have t: "''Fixed.'' \<noteq> []" by simp
  have r: "refinedRef (initial_state\<lparr>refinedRef := 6\<rparr>) = length ''Intro.''" by simp
  have tr: "trim ''Fixed.'' = ''Fixed.''" by code_simp
  from splice_anchored [OF t r, of "'' raw text And more''"] tr show ?thesis
    by simp
qed

text \<open>
  A final chunk committed between the start of a refinement call and its answer is gone
  after the splice.
\<close>

theorem splice_drops_text_appended_in_flight:
  "(case refine_begin
           (onresult \<lparr>resultIndex = 0, results =
               [\<lparr>isFinal = True, transcript = ''the quick brown fox jumps over the lazy dog''\<rparr>]\<rparr>
             (startRecording initial_state)) of
      None \<Rightarrow> False
    | Some (chunk, s1) \<Rightarrow>
        chunk = ''The quick brown fox jumps over the lazy dog'' \<and>
        sourceText (onresult \<lparr>resultIndex = 0, results = [\<lparr>isFinal = True, transcript = ''and more''\<rparr>]\<rparr> s1)
          = ''The quick brown fox jumps over the lazy dog And more'' \<and>
        sourceText
          (refine_end (Inr (Some ''The quick brown fox jumps over the lazy dog.''))
            (onresult \<lparr>resultIndex = 0, results = [\<lparr>isFinal = True, transcript = ''and more''\<rparr>]\<rparr> s1))
          = ''The quick brown fox jumps over the lazy dog.'' \<and>
        \<not> sublist ''And more''
          (sourceText
            (refine_end (Inr (Some ''The quick brown fox jumps over the lazy dog.''))
              (onresult \<lparr>resultIndex = 0, results = [\<lparr>isFinal = True, transcript = ''and more''\<rparr>]\<rparr> s1))))"
  by code_simp

section \<open>What a commit appends\<close>

lemma separator_cases:
  "t \<noteq> [] \<Longrightarrow> separator t = '' '' \<or> separator t = [CHR 0x0A]"
  by (simp add: separator_def)

lemma separator_Nil: "separator [] = []"
  by (simp add: separator_def)

lemma isSpace_separators: "isSpace CHR '' ''" "isSpace (CHR 0x0A)"
  by (simp_all add: isSpace_def)

lemma add_sentence_empty: "trim m = [] \<Longrightarrow> add_sentence t m = t"
  by (simp add: add_sentence_def)

lemma add_sentence_grows:
  assumes "trim m \<noteq> []"
  shows "grows t (add_sentence t m)"
proof -
  let ?u = "capitalize (trim m)"
  from assms trim_props [of m] have "\<not> isSpace (hd (trim m))" "\<not> isSpace (last (trim m))"
    by blast+
  with assms capitalize_props [of "trim m"]
  have u: "?u \<noteq> []" "\<not> isSpace (hd ?u)" "\<not> isSpace (last ?u)"
    by blast+
  have eq: "add_sentence t m = t @ separator t @ ?u"
    using u(1) by (simp add: add_sentence_def Let_def)
  show ?thesis
  proof (cases "t = []")
    case True
    have "add_sentence t m = t @ ?u"
      unfolding eq using True by (simp add: separator_Nil)
    with u True show ?thesis
      unfolding grows_def by (intro exI [of _ ?u]) simp
  next
    case False
    from separator_cases [OF False] isSpace_separators
    obtain c where c: "separator t = [c]" "isSpace c"
      by blast
    have "add_sentence t m = t @ (c # ?u)"
      unfolding eq c by simp
    moreover have "c # ?u \<noteq> []" "\<not> isSpace (last (c # ?u))" "isSpace (hd (c # ?u))"
      "tl (c # ?u) \<noteq> []" "\<not> isSpace (hd (tl (c # ?u)))"
      using u c(2) by simp_all
    ultimately show ?thesis
      unfolding grows_def using False by (intro exI [of _ "c # ?u"]) simp
  qed
qed

lemma grows_not_Nil: "grows t t' \<Longrightarrow> t' \<noteq> []"
  by (auto simp: grows_def)

lemma grows_trans:
  assumes "grows a b" and "grows b c"
  shows "grows a c"
proof -
  from assms(1) obtain e1 where e1: "b = a @ e1" "e1 \<noteq> []"
    "if a = [] then \<not> isSpace (hd e1)
     else isSpace (hd e1) \<and> tl e1 \<noteq> [] \<and> \<not> isSpace (hd (tl e1))"
    unfolding grows_def by blast
  have "b \<noteq> []" using e1 by simp
  with assms(2) obtain e2 where e2: "c = b @ e2" "e2 \<noteq> []" "\<not> isSpace (last e2)"
    unfolding grows_def by auto
  have "c = a @ (e1 @ e2)" using e1 e2 by simp
  moreover have "e1 @ e2 \<noteq> []" "\<not> isSpace (last (e1 @ e2))"
    using e1 e2 by simp_all
  moreover have "if a = [] then \<not> isSpace (hd (e1 @ e2))
     else isSpace (hd (e1 @ e2)) \<and> tl (e1 @ e2) \<noteq> [] \<and> \<not> isSpace (hd (tl (e1 @ e2)))"
    using e1 by (cases e1) (auto split: if_splits)
  ultimately show ?thesis
    unfolding grows_def by blast
qed

lemma foldl_add_sentence:
  "foldl add_sentence t ms = t \<and> (\<forall>m \<in> set ms. trim m = []) \<or> grows t (foldl add_sentence t ms)"
proof (induction ms arbitrary: t)
  case Nil
  then show ?case by simp
next
  case (Cons m ms)
  show ?case
  proof (cases "trim m = []")
    case True
    with Cons.IH [of t] show ?thesis
      by (simp add: add_sentence_empty)
  next
    case False
    then have g: "grows t (add_sentence t m)"
      by (rule add_sentence_grows)
    from Cons.IH [of "add_sentence t m"] show ?thesis
    proof
      assume "foldl add_sentence (add_sentence t m) ms = add_sentence t m \<and> (\<forall>m \<in> set ms. trim m = [])"
      with g show ?thesis by simp
    next
      assume "grows (add_sentence t m) (foldl add_sentence (add_sentence t m) ms)"
      with g have "grows t (foldl add_sentence (add_sentence t m) ms)"
        by (rule grows_trans)
      then show ?thesis by simp
    qed
  qed
qed

lemma last_dropWhile: "dropWhile P xs \<noteq> [] \<Longrightarrow> last (dropWhile P xs) = last xs"
proof -
  assume a: "dropWhile P xs \<noteq> []"
  have "last (takeWhile P xs @ dropWhile P xs) = last (dropWhile P xs)"
    using a by (simp only: last_append if_False)
  then show ?thesis by simp
qed

lemma isTerminator_nonspace: "isTerminator c \<Longrightarrow> \<not> isSpace c"
  by (auto simp: isTerminator_def isSpace_def)

lemma sentence_matches_nonspace:
  "cs = [] \<or> \<not> isSpace (last cs) \<Longrightarrow> m \<in> set (sentence_matches cs) \<Longrightarrow> \<exists>x \<in> set m. \<not> isSpace x"
proof (induction cs rule: sentence_matches.induct)
  case 1
  then show ?case by simp
next
  case (2 c cs)
  from "2.prems"(1) have lst: "\<not> isSpace (last (c # cs))"
    by simp
  show ?case
  proof (cases "isTerminator c")
    case True
    have "sentence_matches (c # cs) = sentence_matches cs"
      by (simp only: sentence_matches.simps True if_True)
    with "2.prems"(2) have "m \<in> set (sentence_matches cs)"
      by (simp only:)
    moreover from lst have "cs = [] \<or> \<not> isSpace (last cs)"
      by (cases "cs = []") simp_all
    ultimately show ?thesis
      using "2.IH"(1) [OF True] by blast
  next
    case False
    show ?thesis
    proof (cases "dropWhile (\<lambda>x. \<not> isTerminator x) cs")
      case Nil
      have "sentence_matches (c # cs) = [c # cs]"
        by (simp only: sentence_matches.simps False if_False Nil list.case)
      with "2.prems"(2) have "m = c # cs" by (simp only: list.set singleton_iff)
      moreover have "last (c # cs) \<in> set (c # cs)" by (rule last_in_set) simp
      ultimately show ?thesis using lst by blast
    next
      case (Cons p rest)
      then have p: "isTerminator p"
        using hd_dropWhile [of "\<lambda>x. \<not> isTerminator x" cs] by auto
      from Cons have cs: "cs \<noteq> []" by auto
      have "sentence_matches (c # cs)
              = (c # takeWhile (\<lambda>x. \<not> isTerminator x) cs @ [p] @ takeWhile isSpace rest)
                  # sentence_matches (dropWhile isSpace rest)"
        by (simp only: sentence_matches.simps False if_False Cons list.case)
      with "2.prems"(2) consider
        (first) "m = c # takeWhile (\<lambda>x. \<not> isTerminator x) cs @ [p] @ takeWhile isSpace rest"
        | (later) "m \<in> set (sentence_matches (dropWhile isSpace rest))"
        by (simp only: list.set insert_iff) blast
      then show ?thesis
      proof cases
        case first
        with p isTerminator_nonspace show ?thesis by auto
      next
        case later
        have "dropWhile isSpace rest = [] \<or> \<not> isSpace (last (dropWhile isSpace rest))"
        proof (cases "dropWhile isSpace rest = []")
          case True
          then show ?thesis by simp
        next
          case nd: False
          then have r: "rest \<noteq> []" by auto
          have "last (dropWhile isSpace rest) = last rest"
            using nd by (rule last_dropWhile)
          also have "\<dots> = last (p # rest)" using r by simp
          also have "\<dots> = last cs"
            using last_dropWhile [of "\<lambda>x. \<not> isTerminator x" cs] Cons by simp
          also have "\<dots> = last (c # cs)" using cs by simp
          finally show ?thesis using lst by simp
        qed
        from "2.IH"(2) [OF False Cons this later] show ?thesis .
      qed
    qed
  qed
qed

lemma commit_final_cases:
  "commit_final c prev = prev \<or> grows (trimEnd prev) (commit_final c prev)"
proof (cases "trim c = []")
  case True
  then show ?thesis by (simp add: commit_final_def)
next
  case False
  let ?chunk = "trim c"
  let ?ms = "case sentence_matches ?chunk of [] \<Rightarrow> [?chunk] | m # ms \<Rightarrow> m # ms"
  have eq: "commit_final c prev = foldl add_sentence (trimEnd prev) ?ms"
    using False by (simp add: commit_final_def Let_def)
  have "\<exists>m \<in> set ?ms. trim m \<noteq> []"
  proof (cases "sentence_matches ?chunk")
    case Nil
    have "hd ?chunk \<in> set ?chunk" using False by simp
    moreover have "\<not> isSpace (hd ?chunk)" using False trim_props [of c] by simp
    ultimately have "trim ?chunk \<noteq> []"
      unfolding trim_eq_Nil_iff by blast
    with Nil show ?thesis by simp
  next
    case (Cons m ms)
    have "?chunk = [] \<or> \<not> isSpace (last ?chunk)"
      using trim_props [of c] by blast
    moreover have "m \<in> set (sentence_matches ?chunk)"
      using Cons by simp
    ultimately have "\<exists>x \<in> set m. \<not> isSpace x"
      by (rule sentence_matches_nonspace)
    then have "trim m \<noteq> []"
      unfolding trim_eq_Nil_iff by blast
    with Cons show ?thesis by simp
  qed
  with foldl_add_sentence [of "trimEnd prev" ?ms] eq show ?thesis
    by auto
qed

section \<open>The shape of the buffer under commits and splices\<close>

lemma trailing_trimEnd: "trailing (trimEnd t) = 0"
proof (cases "trimEnd t = []")
  case True
  then show ?thesis by (simp add: trailing_Nil)
next
  case False
  then have "\<not> isSpace (last (trimEnd t))"
    by (rule trimEnd_nonspace_last)
  with False trailing_append_nonspace [of "trimEnd t" "[]"] show ?thesis
    by simp
qed

lemma text_inv_trimEnd_Nil: "text_inv t r \<Longrightarrow> trimEnd t = [] \<Longrightarrow> t = [] \<and> r = 0"
  using trimEnd_is_Nil [of t] by (auto simp: text_inv_def)

lemma text_inv_grows:
  assumes inv: "text_inv t r" and g: "grows (trimEnd t) t'"
  shows "text_inv t' r \<and> length t \<le> length t' \<and> length (trimEnd t) \<le> length (trimEnd t')"
proof -
  let ?T = "trimEnd t"
  from g obtain ext where ext: "t' = ?T @ ext" "ext \<noteq> []" "\<not> isSpace (last ext)"
    and shape: "if ?T = [] then \<not> isSpace (hd ext)
                else isSpace (hd ext) \<and> tl ext \<noteq> [] \<and> \<not> isSpace (hd (tl ext))"
    unfolding grows_def by blast
  have tr0: "trailing t' = 0"
    unfolding ext(1) using ext(2,3) by (rule trailing_append_nonspace)
  have te': "trimEnd (?T @ ext) = ?T @ ext"
    using ext(2,3) by (rule trimEnd_append_nonspace)
  have te: "trimEnd t' = t'"
    unfolding ext(1) by (rule te')
  have len: "length t = length ?T + trailing t"
    by (rule length_trimEnd)
  show ?thesis
  proof (cases "?T = []")
    case True
    with inv have t: "t = []" "r = 0"
      using text_inv_trimEnd_Nil by blast+
    from True shape have "\<not> isSpace (hd ext)" by simp
    with True ext tr0 t show ?thesis
      by (simp add: text_inv_def trailing_Nil te)
  next
    case False
    with shape obtain c d rest where e: "ext = c # d # rest" "isSpace c" "\<not> isSpace d"
      by (cases ext; cases "tl ext") auto
    from False have tne: "t \<noteq> []"
      by (auto simp: trimEnd_Nil)
    with inv have hdt: "\<not> isSpace (hd t)"
      by (simp add: text_inv_def)
    have hd': "hd t' = hd t"
      unfolding ext(1) using False hd_trimEnd [OF tne hdt] by simp
    from inv have tr2: "trailing t \<le> 2" and rl: "r \<le> length t"
      and take1: "r \<le> length ?T \<longrightarrow> trailing (take r t) \<le> 1"
      by (simp_all add: text_inv_def)
    have l1: "length t \<le> length t'"
      using len tr2 e(1) ext(1) by simp
    have l2: "length ?T \<le> length (trimEnd t')"
      unfolding ext(1) te' by simp
    have tk: "trailing (take r t') \<le> 1"
    proof (cases "r \<le> length ?T")
      case True
      then have "take r t' = take r ?T"
        unfolding ext(1) by simp
      also have "\<dots> = take r t"
        using True by (simp add: take_trimEnd)
      finally show ?thesis using take1 True by simp
    next
      case nle: False
      with rl len tr2 consider "r = length ?T + 1" | "r = length ?T + 2"
        by linarith
      then show ?thesis
      proof cases
        case 1
        then have "take r t' = ?T @ [c]"
          unfolding ext(1) e(1) by simp
        then show ?thesis
          using e(2) trailing_trimEnd [of t] by (simp add: trailing_snoc)
      next
        case 2
        then have "take r t' = (?T @ [c]) @ [d]"
          unfolding ext(1) e(1) by simp
        then show ?thesis
          using e(3) by (simp only: trailing_snoc) simp
      qed
    qed
    have "text_inv t' r"
      unfolding text_inv_def using hd' hdt tr0 rl l1 tk by simp
    with l1 l2 show ?thesis by simp
  qed
qed

lemma text_inv_commit_final:
  assumes "text_inv t r"
  shows "text_inv (commit_final c t) r \<and> length t \<le> length (commit_final c t) \<and>
         length (trimEnd t) \<le> length (trimEnd (commit_final c t))"
  using commit_final_cases [of c t]
proof
  assume "commit_final c t = t"
  with assms show ?thesis by simp
next
  assume "grows (trimEnd t) (commit_final c t)"
  with assms show ?thesis by (rule text_inv_grows)
qed


lemma silence_commit_eq:
  "silence_commit t =
     (if trimEnd t = [] then t
      else trimEnd t @ (if isTerminator (last (trimEnd t)) then [] else ''.'')
             @ [CHR 0x0A, CHR 0x0A])"
proof (cases "trimEnd t = []")
  case True
  then show ?thesis by (simp add: silence_commit_def)
next
  case False
  then have ns: "\<not> isSpace (last (trimEnd t))"
    by (rule trimEnd_nonspace_last)
  then have nl: "last (trimEnd t) \<noteq> CHR 0x0A"
    using isSpace_separators(2) by auto
  have "\<not> endsWith (trimEnd t) [CHR 0x0A, CHR 0x0A]"
    using nl False by (auto simp: endsWith_def suffix_def)
  with False nl show ?thesis
    by (simp add: silence_commit_def Let_def)
qed

lemma text_inv_silence_commit:
  assumes inv: "text_inv t r"
  shows "text_inv (silence_commit t) r \<and> length t \<le> length (silence_commit t) \<and>
         length (trimEnd t) \<le> length (trimEnd (silence_commit t))"
proof (cases "trimEnd t = []")
  case True
  with inv show ?thesis by (simp add: silence_commit_eq)
next
  case False
  let ?T = "trimEnd t"
  let ?X = "?T @ (if isTerminator (last ?T) then [] else ''.'')"
  have eq: "silence_commit t = (?X @ [CHR 0x0A]) @ [CHR 0x0A]"
    using False by (simp add: silence_commit_eq)
  have X: "?X \<noteq> []" "\<not> isSpace (last ?X)"
    using False trimEnd_nonspace_last [OF False] by (auto simp: isSpace_def)
  have trX: "trailing ?X = 0"
    using trailing_append_nonspace [of ?X "[]"] X by simp
  have teX: "trimEnd ?X = ?X"
    using trimEnd_append_nonspace [of ?X "[]"] X by simp
  have tr: "trailing (silence_commit t) = 2"
    unfolding eq by (simp only: trailing_snoc isSpace_separators if_True trX)
  have te: "trimEnd (silence_commit t) = ?X"
    unfolding eq by (simp only: trimEnd_snoc isSpace_separators if_True teX)
  from False have tne: "t \<noteq> []"
    by (auto simp: trimEnd_Nil)
  with inv have hdt: "\<not> isSpace (hd t)"
    by (simp add: text_inv_def)
  have hd': "hd (silence_commit t) = hd t"
    unfolding eq using False hd_trimEnd [OF tne hdt] by simp
  from inv have tr2: "trailing t \<le> 2" and rl: "r \<le> length t"
    and take1: "r \<le> length ?T \<longrightarrow> trailing (take r t) \<le> 1"
    by (simp_all add: text_inv_def)
  have len: "length t = length ?T + trailing t"
    by (rule length_trimEnd)
  have l1: "length t \<le> length (silence_commit t)"
    unfolding eq using len tr2 by simp
  have l2: "length ?T \<le> length (trimEnd (silence_commit t))"
    unfolding te by simp
  have tk: "trailing (take r (silence_commit t)) \<le> 1" if rX: "r \<le> length ?X"
  proof (cases "r \<le> length ?T")
    case True
    then have "take r (silence_commit t) = take r ?T"
      unfolding eq by simp
    also have "\<dots> = take r t"
      using True by (simp add: take_trimEnd)
    finally show ?thesis using take1 True by simp
  next
    case nle: False
    with rX have "take r (silence_commit t) = ?X"
      unfolding eq by (auto split: if_splits)
    then show ?thesis using trX by simp
  qed
  have "text_inv (silence_commit t) r"
    unfolding text_inv_def using hd' hdt tr rl l1 tk te by simp
  with l1 l2 show ?thesis by simp
qed

lemma text_inv_splice:
  fixes x :: string
  assumes inv: "text_inv t r" and rT: "r \<le> length (trimEnd t)"
  defines "head \<equiv> slice t 0 r"
  defines "new \<equiv> head @ (if endsWith head [CHR 0x0A] \<or> head = [] then [] else '' '') @ trim x"
  shows "text_inv new (length new) \<and> r \<le> length new"
proof -
  from inv have rl: "r \<le> length t" and a: "t = [] \<or> \<not> isSpace (hd t)"
    by (simp_all add: text_inv_def)
  from inv rT have th: "trailing head \<le> 1"
    by (simp add: text_inv_def head_def slice_def)
  have hl: "length head = r"
    using rl by (simp add: head_def slice_def)
  have hh: "head \<noteq> [] \<Longrightarrow> \<not> isSpace (hd head)"
    using a rl by (cases t) (auto simp: head_def slice_def)
  have len: "r \<le> length new"
    using hl by (simp add: new_def)
  have hd_new: "new = [] \<or> \<not> isSpace (hd new)"
  proof (cases "head = []")
    case True
    then have "new = trim x" by (simp add: new_def)
    with trim_props [of x] show ?thesis by auto
  next
    case False
    then have "hd new = hd head" by (simp add: new_def)
    with hh [OF False] show ?thesis by simp
  qed
  have tr_new: "trailing new \<le> 2"
  proof (cases "trim x = []")
    case True
    show ?thesis
    proof (cases "endsWith head [CHR 0x0A] \<or> head = []")
      case True
      with \<open>trim x = []\<close> have "new = head" by (simp add: new_def)
      with th show ?thesis by simp
    next
      case False
      with \<open>trim x = []\<close> have "new = head @ [CHR '' '']" by (simp add: new_def)
      with th show ?thesis by (simp add: trailing_snoc isSpace_separators)
    qed
  next
    case False
    with trim_props [of x] have "\<not> isSpace (last (trim x))" by blast
    with False have "trailing new = 0"
      unfolding new_def
      using trailing_append_nonspace
        [of "trim x" "head @ (if endsWith head [CHR 0x0A] \<or> head = [] then [] else '' '')"]
      by simp
    then show ?thesis by simp
  qed
  have tk: "trailing (take (length new) new) \<le> 1" if "length new \<le> length (trimEnd new)"
  proof -
    from that length_trimEnd [of new] have "trailing new = 0" by simp
    then show ?thesis by simp
  qed
  show ?thesis
    unfolding text_inv_def using hd_new tr_new tk len by simp
qed

section \<open>The invariant of a run\<close>

lemma text_inv_empty: "text_inv [] 0"
  by (simp add: text_inv_def trailing_Nil)

lemma trim_drop_nonempty:
  assumes "trim (drop r t) \<noteq> []"
  shows "r \<le> length (trimEnd t)"
proof (rule ccontr)
  assume "\<not> r \<le> length (trimEnd t)"
  then have r: "length (trimEnd t) \<le> r" by simp
  have "drop r t = drop r (trimEnd t @ rev (takeWhile isSpace (rev t)))"
    using trimEnd_decomp [of t] by simp
  also have "\<dots> = drop (r - length (trimEnd t)) (rev (takeWhile isSpace (rev t)))"
    using r by simp
  finally have "set (drop r t) \<subseteq> set (takeWhile isSpace (rev t))"
    using set_drop_subset [of "r - length (trimEnd t)" "rev (takeWhile isSpace (rev t))"]
    by simp
  then have "\<forall>x \<in> set (drop r t). isSpace x"
    using set_takeWhileD [of _ isSpace "rev t"] by blast
  then have "trim (drop r t) = []"
    by (simp only: trim_eq_Nil_iff)
  with assms show False by simp
qed

lemma inv_onresult:
  assumes "pipeline_inv s pend"
  shows "pipeline_inv (onresult ev s) pend"
proof (cases "finalChunk_of ev = []")
  case True
  with assms show ?thesis
    by (simp add: onresult_def pipeline_inv_def split: option.splits)
next
  case False
  let ?t = "commit_final (finalChunk_of ev) (sourceText s)"
  from assms have "text_inv (sourceText s) (refinedRef s)"
    by (simp add: pipeline_inv_def)
  then have "text_inv ?t (refinedRef s) \<and> length (sourceText s) \<le> length ?t \<and>
             length (trimEnd (sourceText s)) \<le> length (trimEnd ?t)"
    by (rule text_inv_commit_final)
  with assms False show ?thesis
    by (auto simp: onresult_def pipeline_inv_def split: option.splits)
qed

lemma inv_silence_timer:
  assumes "pipeline_inv s pend"
  shows "pipeline_inv (silence_timer s) pend"
proof (cases "status s \<noteq> RECORDING \<or> interimText s \<noteq> []")
  case True
  with assms show ?thesis
    by (simp add: silence_timer_def)
next
  case False
  let ?t = "silence_commit (sourceText s)"
  from assms have "text_inv (sourceText s) (refinedRef s)"
    by (simp add: pipeline_inv_def)
  then have "text_inv ?t (refinedRef s) \<and> length (sourceText s) \<le> length ?t \<and>
             length (trimEnd (sourceText s)) \<le> length (trimEnd ?t)"
    by (rule text_inv_silence_commit)
  with assms False show ?thesis
    by (auto simp: silence_timer_def pipeline_inv_def split: option.splits)
qed

lemma inv_controls:
  assumes "pipeline_inv s pend"
  shows "pipeline_inv (fst (onerror code s)) pend"
    and "pipeline_inv (startRecording s) pend"
    and "pipeline_inv (pauseRecording s) pend"
    and "pipeline_inv (stopRecording s) pend"
    and "pipeline_inv (velocity_tick s) pend"
  using assms
  by (simp_all add: pipeline_inv_def onerror_def startRecording_def pauseRecording_def
        stopRecording_def velocity_tick_def Let_def split: option.splits)

lemma inv_refine_begin:
  assumes "pipeline_inv s pend" and "refine_begin s = Some (chunk, s')"
  shows "pipeline_inv s' pend"
proof -
  from assms(2) have s': "s' = s\<lparr>refiningInProgressRef := True, isRefining := True\<rparr>"
    and len: "40 \<le> length (trim (drop (refinedRef s) (sourceText s)))"
    by (auto simp: refine_begin_def slice_from_def Let_def split: if_splits)
  from len have "trim (drop (refinedRef s) (sourceText s)) \<noteq> []"
    by auto
  then have "refinedRef s \<le> length (trimEnd (sourceText s))"
    by (rule trim_drop_nonempty)
  with assms(1) show ?thesis
    by (simp add: s' pipeline_inv_def split: option.splits)
qed

lemma inv_refine_end:
  assumes "pipeline_inv s pend" and "refiningInProgressRef s"
  shows "pipeline_inv (refine_end outcome s) pend"
proof -
  from assms have ti: "text_inv (sourceText s) (refinedRef s)"
    and rT: "refinedRef s \<le> length (trimEnd (sourceText s))"
    by (simp_all add: pipeline_inv_def)
  have keep: "pipeline_inv (s\<lparr>refiningInProgressRef := False, isRefining := False\<rparr>) pend"
    using assms(1) by (simp add: pipeline_inv_def split: option.splits)
  have sp: "pipeline_inv ((splice (trim x) s)\<lparr>refiningInProgressRef := False, isRefining := False\<rparr>) pend"
    for x
    using text_inv_splice [OF ti rT, of x] assms(1)
    by (auto simp: splice_def pipeline_inv_def Let_def split: option.splits)
  show ?thesis
  proof (cases outcome)
    case (Inl e)
    with keep show ?thesis by (simp add: refine_end_def)
  next
    case (Inr res)
    show ?thesis
    proof (cases res)
      case None
      with Inr keep show ?thesis by (simp add: refine_end_def)
    next
      case (Some x)
      with Inr keep sp [of x] show ?thesis
        by (simp add: refine_end_def)
    qed
  qed
qed

lemma inv_translate_begin:
  assumes "pipeline_inv s None" and "performTranslation_begin False now s = Request chunk endIdx s'"
  shows "pipeline_inv s' (Some endIdx)"
proof -
  from assms(2) have "s' = s\<lparr>translatingRef := True, isTranslating := True, lastRequestTimeRef := now\<rparr>"
    and "endIdx = refinedRef s"
    by (auto simp: performTranslation_begin_def Let_def split: if_splits)
  with assms(1) show ?thesis
    by (simp add: pipeline_inv_def)
qed

lemma inv_translate_end:
  assumes "pipeline_inv s (Some endIdx)"
  shows "pipeline_inv (performTranslation_end False endIdx outcome s) None"
  using assms
  by (auto simp: pipeline_inv_def performTranslation_end_def Let_def
        split: sum.splits option.splits)

lemma inv_onClear:
  assumes "pipeline_inv s None"
  shows "pipeline_inv (onClear s) None"
  by (simp add: pipeline_inv_def onClear_def clearTranscript_def text_inv_empty trimEnd_Nil)

lemma reachable_inv: "reachable s pend \<Longrightarrow> pipeline_inv s pend"
proof (induction rule: reachable.induct)
  case (start k)
  show ?case
    by (simp add: pipeline_inv_def initial_state_def text_inv_empty)
next
  case (result s pend ev)
  then show ?case by (simp add: inv_onresult)
next
  case (silence s pend)
  then show ?case by (simp add: inv_silence_timer)
next
  case (recognition_error s pend code)
  then show ?case by (simp add: inv_controls)
next
  case (record_start s pend)
  then show ?case by (simp add: inv_controls)
next
  case (record_pause s pend)
  then show ?case by (simp add: inv_controls)
next
  case (record_stop s pend)
  then show ?case by (simp add: inv_controls)
next
  case (tick s pend)
  then show ?case by (simp add: inv_controls)
next
  case (refine_call s pend chunk s')
  then show ?case by (simp add: inv_refine_begin)
next
  case (refine_answer s pend outcome)
  then show ?case by (simp add: inv_refine_end)
next
  case (translate_call s now chunk endIdx s')
  then show ?case using inv_translate_begin by blast
next
  case (translate_answer s endIdx outcome)
  then show ?case by (simp add: inv_translate_end)
next
  case (clear s)
  then show ?case by (simp add: inv_onClear)
qed

lemma text_inv_ingest: "text_inv t 0 \<Longrightarrow> text_inv (foldl ingest_step t evs) 0"
proof (induction evs arbitrary: t)
  case Nil
  then show ?case by simp
next
  case (Cons ev evs)
  have "text_inv (ingest_step t ev) 0"
    using text_inv_commit_final [OF Cons.prems] text_inv_silence_commit [OF Cons.prems]
    by (cases ev) simp_all
  then show ?case
    using Cons.IH by simp
qed

text \<open>
  C4. After any sequence of final chunks and silence commits from the empty buffer, one
  more commit leaves the buffer at least as long as it was, also when a silence commit
  left two line feeds at the end. The same holds for a result event and for the silence
  timer in every state that a run of the pipeline reaches.
\<close>

theorem ingest_length_monotone:
  "length (ingest_run evs) \<le> length (ingest_run (evs @ [e])) \<and>
   (reachable s pend \<longrightarrow>
      length (sourceText s) \<le> length (sourceText (onresult ev s)) \<and>
      length (sourceText s) \<le> length (sourceText (silence_timer s)))"
proof
  have inv: "text_inv (ingest_run evs) 0"
    unfolding ingest_run_def using text_inv_empty by (rule text_inv_ingest)
  have "length (ingest_run evs) \<le> length (ingest_step (ingest_run evs) e)"
    using text_inv_commit_final [OF inv] text_inv_silence_commit [OF inv]
    by (cases e) simp_all
  then show "length (ingest_run evs) \<le> length (ingest_run (evs @ [e]))"
    by (simp add: ingest_run_def)
next
  show "reachable s pend \<longrightarrow>
      length (sourceText s) \<le> length (sourceText (onresult ev s)) \<and>
      length (sourceText s) \<le> length (sourceText (silence_timer s))"
  proof
    assume "reachable s pend"
    then have "pipeline_inv s pend"
      by (rule reachable_inv)
    then have inv: "text_inv (sourceText s) (refinedRef s)"
      by (simp add: pipeline_inv_def)
    have "length (sourceText s) \<le> length (commit_final (finalChunk_of ev) (sourceText s))"
      using text_inv_commit_final [OF inv] by blast
    then have 1: "length (sourceText s) \<le> length (sourceText (onresult ev s))"
      by (simp add: onresult_def Let_def)
    have "length (sourceText s) \<le> length (silence_commit (sourceText s))"
      using text_inv_silence_commit [OF inv] by blast
    then have 2: "length (sourceText s) \<le> length (sourceText (silence_timer s))"
      by (simp add: silence_timer_def)
    from 1 2 show "length (sourceText s) \<le> length (sourceText (onresult ev s)) \<and>
      length (sourceText s) \<le> length (sourceText (silence_timer s))"
      by simp
  qed
qed

lemma initial_state_key: "initial_state\<lparr>API_KEY := True\<rparr> = initial_state"
  by (simp add: initial_state_def)

theorem ingest_length_monotone_witness:
  "ingest_run [FinalChunk ''hello world'', FinalChunk ''this is a test.'', SilenceElapsed]
     = ''Hello world This is a test.'' @ [CHR 0x0A, CHR 0x0A] \<and>
   ingest_run
     ([FinalChunk ''hello world'', FinalChunk ''this is a test.'', SilenceElapsed] @ [FinalChunk ''a''])
     = ''Hello world This is a test. A'' \<and>
   reachable
     (silence_timer
       (onresult \<lparr>resultIndex = 0, results = [\<lparr>isFinal = True, transcript = ''this is a test.''\<rparr>]\<rparr>
         (onresult \<lparr>resultIndex = 0, results = [\<lparr>isFinal = True, transcript = ''hello world''\<rparr>]\<rparr>
           (startRecording initial_state)))) None \<and>
   length (sourceText
     (silence_timer
       (onresult \<lparr>resultIndex = 0, results = [\<lparr>isFinal = True, transcript = ''this is a test.''\<rparr>]\<rparr>
         (onresult \<lparr>resultIndex = 0, results = [\<lparr>isFinal = True, transcript = ''hello world''\<rparr>]\<rparr>
           (startRecording initial_state))))) = 29 \<and>
   length (sourceText
     (onresult \<lparr>resultIndex = 0, results = [\<lparr>isFinal = True, transcript = ''a''\<rparr>]\<rparr>
       (silence_timer
         (onresult \<lparr>resultIndex = 0, results = [\<lparr>isFinal = True, transcript = ''this is a test.''\<rparr>]\<rparr>
           (onresult \<lparr>resultIndex = 0, results = [\<lparr>isFinal = True, transcript = ''hello world''\<rparr>]\<rparr>
             (startRecording initial_state)))))) = 29"
proof -
  let ?s = "silence_timer
       (onresult \<lparr>resultIndex = 0, results = [\<lparr>isFinal = True, transcript = ''this is a test.''\<rparr>]\<rparr>
         (onresult \<lparr>resultIndex = 0, results = [\<lparr>isFinal = True, transcript = ''hello world''\<rparr>]\<rparr>
           (startRecording initial_state)))"
  let ?a = "\<lparr>resultIndex = 0, results = [\<lparr>isFinal = True, transcript = ''a''\<rparr>]\<rparr>"
  have "reachable initial_state None"
    using reachable.start [of True] by (simp only: initial_state_key)
  then have r: "reachable ?s None"
    by (intro reachable.silence reachable.result reachable.record_start)
  have e1: "ingest_run [FinalChunk ''hello world'', FinalChunk ''this is a test.'', SilenceElapsed]
     = ''Hello world This is a test.'' @ [CHR 0x0A, CHR 0x0A]"
    by code_simp
  have e2: "ingest_run
     ([FinalChunk ''hello world'', FinalChunk ''this is a test.'', SilenceElapsed] @ [FinalChunk ''a''])
     = ''Hello world This is a test. A''"
    by code_simp
  have e3: "length (sourceText ?s) = 29"
    by code_simp
  have e4: "length (sourceText (onresult ?a ?s)) \<le> 29"
    by code_simp
  from ingest_length_monotone
    [of "[FinalChunk ''hello world'', FinalChunk ''this is a test.'', SilenceElapsed]"
        "FinalChunk ''a''" ?s None ?a]
    r e1 e2 e3 e4
  show ?thesis
    by simp
qed





section \<open>The separator of a commit\<close>

lemma separator_thresholds:
  shows "length (lastLine t) = 81 \<Longrightarrow> last (lastLine t) = CHR ''.'' \<Longrightarrow> separator t = [CHR 0x0A]"
    and "length (lastLine t) = 50 \<Longrightarrow> last (lastLine t) = CHR ''.'' \<Longrightarrow> separator t = '' ''"
    and "length (lastLine t) = 161 \<Longrightarrow> separator t = [CHR 0x0A]"
proof -
  show "separator t = [CHR 0x0A]"
    if "length (lastLine t) = 81" "last (lastLine t) = CHR ''.''"
  proof -
    from that have "lastLine t \<noteq> []" by auto
    then have "t \<noteq> []" by (rule lastLine_nonempty)
    moreover from that \<open>lastLine t \<noteq> []\<close> have "shouldBreak (lastLine t)"
      by (simp add: shouldBreak_def endsInPunctuation_def isTerminator_def SOFT_BREAK_THRESHOLD_def)
    ultimately show ?thesis by (simp add: separator_def)
  qed
  show "separator t = '' ''"
    if "length (lastLine t) = 50" "last (lastLine t) = CHR ''.''"
  proof -
    from that have "lastLine t \<noteq> []" by auto
    then have "t \<noteq> []" by (rule lastLine_nonempty)
    moreover from that have "\<not> shouldBreak (lastLine t)"
      by (simp add: shouldBreak_def SOFT_BREAK_THRESHOLD_def MAX_READABLE_LINE_LENGTH_def)
    ultimately show ?thesis by (simp add: separator_def)
  qed
  show "separator t = [CHR 0x0A]"
    if "length (lastLine t) = 161"
  proof -
    from that have "lastLine t \<noteq> []" by auto
    then have "t \<noteq> []" by (rule lastLine_nonempty)
    moreover from that have "shouldBreak (lastLine t)"
      by (simp add: shouldBreak_def MAX_READABLE_LINE_LENGTH_def)
    ultimately show ?thesis by (simp add: separator_def)
  qed
qed

lemma last_lastLine: "lastLine t \<noteq> [] \<Longrightarrow> last (lastLine t) = last t"
proof -
  assume a: "lastLine t \<noteq> []"
  then have n: "takeWhile (\<lambda>c. c \<noteq> CHR 0x0A) (rev t) \<noteq> []"
    by (simp add: lastLine_def)
  then have r: "rev t \<noteq> []"
    by auto
  have "last (lastLine t) = hd (takeWhile (\<lambda>c. c \<noteq> CHR 0x0A) (rev t))"
    using n by (simp add: lastLine_def last_rev)
  also have "\<dots> = hd (rev t)"
    using n by (cases "rev t") (auto split: if_splits)
  also have "\<dots> = last t"
    using r by (simp add: hd_rev)
  finally show ?thesis .
qed

lemma trimEnd_id: "t \<noteq> [] \<Longrightarrow> \<not> isSpace (last t) \<Longrightarrow> trimEnd t = t"
  using trimEnd_append_nonspace [of t "[]"] by simp

lemma matches_have_unit:
  assumes "trim c \<noteq> []"
  shows "\<exists>m \<in> set (case sentence_matches (trim c) of [] \<Rightarrow> [trim c] | m # ms \<Rightarrow> m # ms).
           trim m \<noteq> []"
proof (cases "sentence_matches (trim c)")
  case Nil
  have "hd (trim c) \<in> set (trim c)" using assms by simp
  moreover have "\<not> isSpace (hd (trim c))" using assms trim_props [of c] by simp
  ultimately have "trim (trim c) \<noteq> []"
    unfolding trim_eq_Nil_iff by blast
  with Nil show ?thesis by simp
next
  case (Cons m ms)
  have "trim c = [] \<or> \<not> isSpace (last (trim c))"
    using trim_props [of c] by blast
  moreover have "m \<in> set (sentence_matches (trim c))"
    using Cons by simp
  ultimately have "\<exists>x \<in> set m. \<not> isSpace x"
    by (rule sentence_matches_nonspace)
  then have "trim m \<noteq> []"
    unfolding trim_eq_Nil_iff by blast
  with Cons show ?thesis by simp
qed

lemma add_sentence_unit:
  assumes "trim m \<noteq> []"
  shows "\<exists>u. add_sentence t m = t @ separator t @ u \<and> u \<noteq> [] \<and> \<not> isSpace (hd u)"
proof -
  from assms trim_props [of m] have "\<not> isSpace (hd (trim m))" "\<not> isSpace (last (trim m))"
    by blast+
  with assms capitalize_props [of "trim m"]
  have u: "capitalize (trim m) \<noteq> []" "\<not> isSpace (hd (capitalize (trim m)))"
    by blast+
  then have "add_sentence t m = t @ separator t @ capitalize (trim m)"
    by (simp add: add_sentence_def Let_def)
  with u show ?thesis by blast
qed

lemma foldl_first_separator:
  "\<exists>m \<in> set ms. trim m \<noteq> [] \<Longrightarrow>
     \<exists>rest. foldl add_sentence t ms = t @ separator t @ rest \<and> rest \<noteq> [] \<and> \<not> isSpace (hd rest)"
proof (induction ms)
  case Nil
  then show ?case by simp
next
  case (Cons m ms)
  show ?case
  proof (cases "trim m = []")
    case True
    with Cons.prems have "\<exists>m \<in> set ms. trim m \<noteq> []" by auto
    then show ?thesis
      using Cons.IH True by (simp add: add_sentence_empty)
  next
    case False
    then obtain u where u: "add_sentence t m = t @ separator t @ u" "u \<noteq> []" "\<not> isSpace (hd u)"
      using add_sentence_unit by blast
    let ?t1 = "add_sentence t m"
    from foldl_add_sentence [of ?t1 ms]
    obtain ext where "foldl add_sentence ?t1 ms = ?t1 @ ext"
      unfolding grows_def by (metis append_Nil2)
    then have "foldl add_sentence t (m # ms) = t @ separator t @ (u @ ext)"
      using u(1) by simp
    moreover have "u @ ext \<noteq> []" "\<not> isSpace (hd (u @ ext))"
      using u(2,3) by simp_all
    ultimately show ?thesis by blast
  qed
qed

lemma commit_final_first_separator:
  assumes "trim c \<noteq> []"
  shows "\<exists>rest. commit_final c prev = trimEnd prev @ separator (trimEnd prev) @ rest \<and>
           rest \<noteq> [] \<and> \<not> isSpace (hd rest)"
proof -
  have "commit_final c prev
          = foldl add_sentence (trimEnd prev)
              (case sentence_matches (trim c) of [] \<Rightarrow> [trim c] | m # ms \<Rightarrow> m # ms)"
    using assms by (simp add: commit_final_def Let_def)
  with foldl_first_separator [OF matches_have_unit [OF assms], of "trimEnd prev"]
  show ?thesis by simp
qed

lemma onresult_commit:
  "trim (finalChunk_of ev) \<noteq> [] \<Longrightarrow>
     sourceText (onresult ev s) = commit_final (finalChunk_of ev) (sourceText s)"
  using trim_nonempty [of "finalChunk_of ev"] by (simp add: onresult_def Let_def)

text \<open>
  C8 (as amended). A commit removes the white space at the end of the buffer before it
  looks at the last line. When the last line of the buffer has 81 characters and ends in
  a full stop, the separator put before the next unit is a line feed; when it has 50
  characters and ends in a full stop, it is a single space. When the last line of the
  buffer without its trailing white space has 161 characters and no terminal punctuation,
  the separator is a line feed; that is so in particular when the last line of the buffer
  has 161 characters, no terminal punctuation and no white space at its end.
\<close>

theorem commit_separator_rule:
  assumes "trim (finalChunk_of ev) \<noteq> []"
  shows
    "(length (lastLine (sourceText s)) = 81 \<and> last (lastLine (sourceText s)) = CHR ''.''
        \<longrightarrow> (\<exists>rest. sourceText (onresult ev s) = sourceText s @ [CHR 0x0A] @ rest \<and>
                    rest \<noteq> [] \<and> \<not> isSpace (hd rest))) \<and>
     (length (lastLine (sourceText s)) = 50 \<and> last (lastLine (sourceText s)) = CHR ''.''
        \<longrightarrow> (\<exists>rest. sourceText (onresult ev s) = sourceText s @ '' '' @ rest \<and>
                    rest \<noteq> [] \<and> \<not> isSpace (hd rest))) \<and>
     (length (lastLine (trimEnd (sourceText s))) = 161 \<and>
      \<not> endsInPunctuation (lastLine (trimEnd (sourceText s)))
        \<longrightarrow> (\<exists>rest. sourceText (onresult ev s) = trimEnd (sourceText s) @ [CHR 0x0A] @ rest \<and>
                    rest \<noteq> [] \<and> \<not> isSpace (hd rest))) \<and>
     (length (lastLine (sourceText s)) = 161 \<and> \<not> endsInPunctuation (lastLine (sourceText s)) \<and>
      \<not> isSpace (last (sourceText s))
        \<longrightarrow> (\<exists>rest. sourceText (onresult ev s) = sourceText s @ [CHR 0x0A] @ rest \<and>
                    rest \<noteq> [] \<and> \<not> isSpace (hd rest)))"
proof -
  let ?t = "sourceText s"
  obtain rest where rest:
    "sourceText (onresult ev s) = trimEnd ?t @ separator (trimEnd ?t) @ rest"
    "rest \<noteq> []" "\<not> isSpace (hd rest)"
    using commit_final_first_separator [OF assms, of ?t] onresult_commit [OF assms, of s]
    by auto
  have stop: "trimEnd ?t = ?t" if "lastLine ?t \<noteq> []" "last (lastLine ?t) = CHR ''.''"
  proof -
    from that(1) have "?t \<noteq> []" by (rule lastLine_nonempty)
    moreover from that have "last ?t = CHR ''.''"
      using last_lastLine [of ?t] by simp
    then have "\<not> isSpace (last ?t)"
      by (simp add: isSpace_def)
    ultimately show ?thesis by (rule trimEnd_id)
  qed
  have 1: "\<exists>rest. sourceText (onresult ev s) = ?t @ [CHR 0x0A] @ rest \<and>
                    rest \<noteq> [] \<and> \<not> isSpace (hd rest)"
    if h: "length (lastLine ?t) = 81" "last (lastLine ?t) = CHR ''.''"
  proof -
    from h(1) have "lastLine ?t \<noteq> []" by auto
    then have "trimEnd ?t = ?t" using h(2) by (rule stop)
    with rest separator_thresholds(1) [OF h] show ?thesis by auto
  qed
  have 2: "\<exists>rest. sourceText (onresult ev s) = ?t @ '' '' @ rest \<and>
                    rest \<noteq> [] \<and> \<not> isSpace (hd rest)"
    if h: "length (lastLine ?t) = 50" "last (lastLine ?t) = CHR ''.''"
  proof -
    from h(1) have "lastLine ?t \<noteq> []" by auto
    then have "trimEnd ?t = ?t" using h(2) by (rule stop)
    with rest separator_thresholds(2) [OF h] show ?thesis by auto
  qed
  have 3: "\<exists>rest. sourceText (onresult ev s) = trimEnd ?t @ [CHR 0x0A] @ rest \<and>
                    rest \<noteq> [] \<and> \<not> isSpace (hd rest)"
    if h: "length (lastLine (trimEnd ?t)) = 161"
    using rest separator_thresholds(3) [OF h] by auto
  have 4: "\<exists>rest. sourceText (onresult ev s) = ?t @ [CHR 0x0A] @ rest \<and>
                    rest \<noteq> [] \<and> \<not> isSpace (hd rest)"
    if h: "length (lastLine ?t) = 161" "\<not> isSpace (last ?t)"
  proof -
    from h(1) have "lastLine ?t \<noteq> []" by auto
    then have "?t \<noteq> []" by (rule lastLine_nonempty)
    then have "trimEnd ?t = ?t" using h(2) by (rule trimEnd_id)
    with 3 h(1) show ?thesis by simp
  qed
  from 1 2 3 4 show ?thesis by blast
qed

theorem commit_separator_rule_witness:
  "trim (finalChunk_of \<lparr>resultIndex = 0, results = [\<lparr>isFinal = True, transcript = ''next unit''\<rparr>]\<rparr>)
     \<noteq> [] \<and>
   length (lastLine (replicate 80 CHR ''a'' @ ''.'')) = 81 \<and>
   last (lastLine (replicate 80 CHR ''a'' @ ''.'')) = CHR ''.'' \<and>
   sourceText
     (onresult \<lparr>resultIndex = 0, results = [\<lparr>isFinal = True, transcript = ''next unit''\<rparr>]\<rparr>
       (initial_state\<lparr>sourceText := replicate 80 CHR ''a'' @ ''.''\<rparr>))
     = replicate 80 CHR ''a'' @ ''.'' @ [CHR 0x0A] @ ''Next unit'' \<and>
   length (lastLine (replicate 49 CHR ''a'' @ ''.'')) = 50 \<and>
   last (lastLine (replicate 49 CHR ''a'' @ ''.'')) = CHR ''.'' \<and>
   sourceText
     (onresult \<lparr>resultIndex = 0, results = [\<lparr>isFinal = True, transcript = ''next unit''\<rparr>]\<rparr>
       (initial_state\<lparr>sourceText := replicate 49 CHR ''a'' @ ''.''\<rparr>))
     = replicate 49 CHR ''a'' @ ''.'' @ '' '' @ ''Next unit'' \<and>
   length (lastLine (replicate 161 CHR ''a'')) = 161 \<and>
   \<not> endsInPunctuation (lastLine (replicate 161 CHR ''a'')) \<and>
   \<not> isSpace (last (replicate 161 CHR ''a'')) \<and>
   sourceText
     (onresult \<lparr>resultIndex = 0, results = [\<lparr>isFinal = True, transcript = ''next unit''\<rparr>]\<rparr>
       (initial_state\<lparr>sourceText := replicate 161 CHR ''a''\<rparr>))
     = replicate 161 CHR ''a'' @ [CHR 0x0A] @ ''Next unit''"
proof -
  let ?ev = "\<lparr>resultIndex = 0, results = [\<lparr>isFinal = True, transcript = ''next unit''\<rparr>]\<rparr>"
  have c: "trim (finalChunk_of ?ev) \<noteq> []"
    by code_simp
  have h1: "length (lastLine (replicate 80 CHR ''a'' @ ''.'')) = 81"
    "last (lastLine (replicate 80 CHR ''a'' @ ''.'')) = CHR ''.''"
    by code_simp+
  have h2: "length (lastLine (replicate 49 CHR ''a'' @ ''.'')) = 50"
    "last (lastLine (replicate 49 CHR ''a'' @ ''.'')) = CHR ''.''"
    by code_simp+
  have h3: "length (lastLine (replicate 161 CHR ''a'')) = 161"
    "\<not> endsInPunctuation (lastLine (replicate 161 CHR ''a''))"
    "\<not> isSpace (last (replicate 161 CHR ''a''))"
    by code_simp+
  have r1: "sourceText (onresult ?ev (initial_state\<lparr>sourceText := replicate 80 CHR ''a'' @ ''.''\<rparr>))
     = replicate 80 CHR ''a'' @ ''.'' @ [CHR 0x0A] @ ''Next unit''"
    by code_simp
  have r2: "sourceText (onresult ?ev (initial_state\<lparr>sourceText := replicate 49 CHR ''a'' @ ''.''\<rparr>))
     = replicate 49 CHR ''a'' @ ''.'' @ '' '' @ ''Next unit''"
    by code_simp
  have r3: "sourceText (onresult ?ev (initial_state\<lparr>sourceText := replicate 161 CHR ''a''\<rparr>))
     = replicate 161 CHR ''a'' @ [CHR 0x0A] @ ''Next unit''"
    by code_simp
  from c h1 h2 h3 r1 r2 r3
    commit_separator_rule [OF c, of "initial_state\<lparr>sourceText := replicate 80 CHR ''a'' @ ''.''\<rparr>"]
    commit_separator_rule [OF c, of "initial_state\<lparr>sourceText := replicate 49 CHR ''a'' @ ''.''\<rparr>"]
    commit_separator_rule [OF c, of "initial_state\<lparr>sourceText := replicate 161 CHR ''a''\<rparr>"]
  show ?thesis
    by blast
qed

text \<open>
  A run of the pipeline reaches a buffer of 160 letters and a space: its last line has 161
  characters and no terminal punctuation, and the next unit is put after a single space.
\<close>

theorem separator_after_trailing_space:
  "(let s1 = onresult \<lparr>resultIndex = 0, results =
                 [\<lparr>isFinal = True, transcript = replicate 160 CHR ''a''\<rparr>]\<rparr>
               (startRecording initial_state);
        s3 = refine_end (Inr (Some (replicate 160 CHR ''a'')))
               (s1\<lparr>refiningInProgressRef := True, isRefining := True\<rparr>);
        s4 = onresult \<lparr>resultIndex = 0, results =
                 [\<lparr>isFinal = True, transcript = ''the quick brown fox jumps over the lazy dog''\<rparr>]\<rparr>
               s3;
        s6 = refine_end (Inr (Some '' ''))
               (s4\<lparr>refiningInProgressRef := True, isRefining := True\<rparr>)
    in reachable s6 None \<and>
       sourceText s6 = replicate 160 CHR ''a'' @ '' '' \<and>
       length (lastLine (sourceText s6)) = 161 \<and>
       \<not> endsInPunctuation (lastLine (sourceText s6)) \<and>
       sourceText
         (onresult \<lparr>resultIndex = 0, results = [\<lparr>isFinal = True, transcript = ''next unit''\<rparr>]\<rparr> s6)
         = replicate 160 CHR ''a'' @ '' '' @ ''Next unit'')"
proof -
  let ?s1 = "onresult \<lparr>resultIndex = 0, results =
                 [\<lparr>isFinal = True, transcript = replicate 160 CHR ''a''\<rparr>]\<rparr>
               (startRecording initial_state)"
  let ?s2 = "?s1\<lparr>refiningInProgressRef := True, isRefining := True\<rparr>"
  let ?s3 = "refine_end (Inr (Some (replicate 160 CHR ''a''))) ?s2"
  let ?s4 = "onresult \<lparr>resultIndex = 0, results =
                 [\<lparr>isFinal = True, transcript = ''the quick brown fox jumps over the lazy dog''\<rparr>]\<rparr>
               ?s3"
  let ?s5 = "?s4\<lparr>refiningInProgressRef := True, isRefining := True\<rparr>"
  let ?s6 = "refine_end (Inr (Some '' '')) ?s5"
  have "reachable initial_state None"
    using reachable.start [of True] by (simp only: initial_state_key)
  then have r1: "reachable ?s1 None"
    by (intro reachable.result reachable.record_start)
  have b1: "refine_begin ?s1 = Some (CHR ''A'' # replicate 159 CHR ''a'', ?s2)"
    by code_simp
  have r2: "reachable ?s2 None"
    using r1 b1 by (rule reachable.refine_call)
  have "refiningInProgressRef ?s2"
    by simp
  with r2 have r3: "reachable ?s3 None"
    by (rule reachable.refine_answer)
  then have r4: "reachable ?s4 None"
    by (rule reachable.result)
  have b2: "refine_begin ?s4 = Some (''The quick brown fox jumps over the lazy dog'', ?s5)"
    by code_simp
  have r5: "reachable ?s5 None"
    using r4 b2 by (rule reachable.refine_call)
  have "refiningInProgressRef ?s5"
    by simp
  with r5 have r6: "reachable ?s6 None"
    by (rule reachable.refine_answer)
  have e1: "sourceText ?s6 = replicate 160 CHR ''a'' @ '' ''"
    by code_simp
  have e2: "length (lastLine (sourceText ?s6)) = 161"
    by code_simp
  have e3: "\<not> endsInPunctuation (lastLine (sourceText ?s6))"
    by code_simp
  have e4: "sourceText
         (onresult \<lparr>resultIndex = 0, results = [\<lparr>isFinal = True, transcript = ''next unit''\<rparr>]\<rparr> ?s6)
         = replicate 160 CHR ''a'' @ '' '' @ ''Next unit''"
    by code_simp
  from r6 e1 e2 e3 e4 show ?thesis
    unfolding Let_def by blast
qed

end
